theory Spec2Isabelle
  imports Main "HOL-Library.Char_ord" "HOL-Library.List_Lexorder"
begin

section \<open>setvar: shell environment variable store\<close>

text \<open>
  A shallow embedding of \<^verbatim>\<open>src/setvar.py\<close>. Python strings are modelled as
  \<^typ>\<open>string\<close>; a \<^typ>\<open>char\<close> stands for a code point below 256, so the character
  classes below are Python's classes restricted to that range. Text files are modelled by
  their decoded content.
\<close>

subsection \<open>Character classes\<close>

text \<open>
  \<^verbatim>\<open>\s\<close> in a \<^verbatim>\<open>str\<close> pattern and \<^verbatim>\<open>str.strip()\<close> use the same
  predicate (\<^verbatim>\<open>str.isspace\<close>): tab, line feed, vertical tab, form feed, carriage return,
  the separators 0x1C..0x1F, space, NEL (0x85) and the no-break space (0xA0).
\<close>

definition whitespace_chars :: string where
  "whitespace_chars =
     [CHR 0x09, CHR 0x0A, CHR 0x0B, CHR 0x0C, CHR 0x0D, CHR 0x1C, CHR 0x1D, CHR 0x1E,
      CHR 0x1F, CHR 0x20, CHR 0x85, CHR 0xA0]"

definition isspace :: "char \<Rightarrow> bool" where
  "isspace c \<longleftrightarrow> c \<in> set whitespace_chars"

text \<open>The class \<^verbatim>\<open>[A-Za-z_]\<close>.\<close>

definition ident_start :: "char \<Rightarrow> bool" where
  "ident_start c \<longleftrightarrow>
     c \<in> set ''ABCDEFGHIJKLMNOPQRSTUVWXYZabcdefghijklmnopqrstuvwxyz_''"

text \<open>The class \<^verbatim>\<open>[A-Za-z0-9_]\<close>.\<close>

definition ident_char :: "char \<Rightarrow> bool" where
  "ident_char c \<longleftrightarrow> ident_start c \<or> c \<in> set ''0123456789''"

text \<open>A full match of \<^verbatim>\<open>[A-Za-z_][A-Za-z0-9_]*\<close>.\<close>

definition is_identifier :: "string \<Rightarrow> bool" where
  "is_identifier n \<longleftrightarrow> n \<noteq> [] \<and> ident_start (hd n) \<and> list_all ident_char n"

abbreviation newline :: char where "newline \<equiv> CHR 0x0A"
abbreviation carriage_return :: char where "carriage_return \<equiv> CHR 0x0D"
abbreviation dquote :: char where "dquote \<equiv> CHR 0x22"
abbreviation squote :: char where "squote \<equiv> CHR 0x27"
abbreviation backslash :: char where "backslash \<equiv> CHR 0x5C"

subsection \<open>Assignment codec: \<^verbatim>\<open>parse_export_line\<close>, \<^verbatim>\<open>format_export_line\<close>\<close>

text \<open>\<^verbatim>\<open>str.strip()\<close>: leading and trailing whitespace removed.\<close>

definition strip :: "string \<Rightarrow> string" where
  "strip s = rev (dropWhile isspace (rev (dropWhile isspace s)))"

text \<open>
  The regular-expression pieces. Every repetition of the two patterns is followed by a
  character outside its own class (\<^verbatim>\<open>\s*\<close> by \<^verbatim>\<open>e\<close> or a name character,
  \<^verbatim>\<open>\s+\<close> by a name character, the name by \<^verbatim>\<open>=\<close>, \<^verbatim>\<open>.*\<close> by the end
  anchor), so the backtracking matcher can only succeed with the longest repetition; the
  functions below take it. Lemmas \<open>match_export_iff\<close> and \<open>match_bare_iff\<close> relate them to
  the decomposition of the line that the pattern describes.
\<close>

text \<open>\<^verbatim>\<open>([A-Za-z_][A-Za-z0-9_]*)=\<close> at the start of \<open>s\<close>: the name and what follows
  the equals sign.\<close>

definition match_name_eq :: "string \<Rightarrow> (string \<times> string) option" where
  "match_name_eq s =
     (case s of
        [] \<Rightarrow> None
      | c # _ \<Rightarrow>
          if ident_start c then
            (case dropWhile ident_char s of
               [] \<Rightarrow> None
             | d # rest \<Rightarrow>
                 if d = CHR ''='' then Some (takeWhile ident_char s, rest) else None)
          else None)"

text \<open>\<^verbatim>\<open>(.*)$\<close>: the dot excludes the line feed, and \<^verbatim>\<open>$\<close> holds at the end of
  the string or before a line feed that is its last character.\<close>

definition match_rest :: "string \<Rightarrow> string option" where
  "match_rest s =
     (let r = dropWhile (\<lambda>c. c \<noteq> newline) s
      in if r = [] \<or> r = [newline] then Some (takeWhile (\<lambda>c. c \<noteq> newline) s) else None)"

definition match_assignment :: "string \<Rightarrow> (string \<times> string) option" where
  "match_assignment s =
     (case match_name_eq s of
        None \<Rightarrow> None
      | Some (n, r) \<Rightarrow> (case match_rest r of None \<Rightarrow> None | Some v \<Rightarrow> Some (n, v)))"

text \<open>\<^verbatim>\<open>^\s*export\s+([A-Za-z_][A-Za-z0-9_]*)=(.*)$\<close>\<close>

definition match_export :: "string \<Rightarrow> (string \<times> string) option" where
  "match_export line =
     (let s = dropWhile isspace line
      in if take 6 s = ''export'' then
           (let t = drop 6 s
            in if t \<noteq> [] \<and> isspace (hd t) then match_assignment (dropWhile isspace t)
               else None)
         else None)"

text \<open>\<^verbatim>\<open>^\s*([A-Za-z_][A-Za-z0-9_]*)=(.*)$\<close>\<close>

definition match_bare :: "string \<Rightarrow> (string \<times> string) option" where
  "match_bare line = match_assignment (dropWhile isspace line)"

text \<open>The quote test and the slice \<^verbatim>\<open>value[1:-1]\<close>.\<close>

definition startswith_chr :: "string \<Rightarrow> char \<Rightarrow> bool" where
  "startswith_chr s c \<longleftrightarrow> (case s of [] \<Rightarrow> False | x # _ \<Rightarrow> x = c)"

definition endswith_chr :: "string \<Rightarrow> char \<Rightarrow> bool" where
  "endswith_chr s c \<longleftrightarrow> (case rev s of [] \<Rightarrow> False | x # _ \<Rightarrow> x = c)"

definition remove_quotes :: "string \<Rightarrow> string" where
  "remove_quotes v =
     (if (startswith_chr v dquote \<and> endswith_chr v dquote) \<or>
         (startswith_chr v squote \<and> endswith_chr v squote)
      then butlast (tl v) else v)"

definition parse_export_line :: "string \<Rightarrow> (string \<times> string) option" where
  "parse_export_line line =
     (case match_export line of
        Some (name, g) \<Rightarrow> Some (name, remove_quotes (strip g))
      | None \<Rightarrow>
          (case match_bare line of
             Some (name, g) \<Rightarrow> Some (name, remove_quotes (strip g))
           | None \<Rightarrow> None))"

definition special_chars :: string where
  "special_chars =
     [CHR 0x20, CHR 0x09, CHR ''$'', CHR 0x60, dquote, squote, backslash, CHR ''!'',
      CHR ''*'', CHR ''?'', CHR ''['', CHR '']'', CHR ''('', CHR '')'', CHR ''{'',
      CHR ''}'', CHR ''<'', CHR ''>'', CHR ''|'', CHR ''&'', CHR '';'']"

definition needs_quotes :: "string \<Rightarrow> bool" where
  "needs_quotes v \<longleftrightarrow> (\<exists>c \<in> set special_chars. c \<in> set v)"

text \<open>\<^verbatim>\<open>value.replace('"', '\\"')\<close>\<close>

definition escape_dquotes :: "string \<Rightarrow> string" where
  "escape_dquotes v = concat (map (\<lambda>c. if c = dquote then [backslash, dquote] else [c]) v)"

definition format_export_line :: "string \<Rightarrow> string \<Rightarrow> string" where
  "format_export_line name v =
     (if needs_quotes v
      then ''export '' @ name @ ''='' @ [dquote] @ escape_dquotes v @ [dquote] @ [newline]
      else ''export '' @ name @ ''='' @ v @ [newline])"


subsection \<open>Shells and configuration\<close>

datatype shell = BASH | ZSH | SH

text \<open>\<^verbatim>\<open>Shell.value\<close>\<close>

fun shell_value :: "shell \<Rightarrow> string" where
  "shell_value BASH = ''bash''"
| "shell_value ZSH = ''zsh''"
| "shell_value SH = ''sh''"

text \<open>
  The fields of a \<^verbatim>\<open>SetVar\<close> object that the modelled methods read, together with the
  value of \<^verbatim>\<open>Path.home()\<close>. Logging is not modelled.
\<close>

record config =
  home :: string
  config_dir :: string
  backup_enabled :: bool
  dry_run :: bool

definition backup_dir :: "config \<Rightarrow> string" where
  "backup_dir cfg = config_dir cfg @ ''/backups''"

text \<open>\<^verbatim>\<open>str(a / b)\<close> for a relative, slash-free \<open>b\<close>.\<close>

definition path_join :: "string \<Rightarrow> string \<Rightarrow> string" where
  "path_join a b = a @ ''/'' @ b"

text \<open>\<^verbatim>\<open>Path(p).name\<close>: the last component of a path without a trailing slash.\<close>

definition basename :: "string \<Rightarrow> string" where
  "basename p = rev (takeWhile (\<lambda>c. c \<noteq> CHR ''/'') (rev p))"

text \<open>\<^verbatim>\<open>Shell.config_files\<close>\<close>

fun config_files :: "config \<Rightarrow> shell \<Rightarrow> string list" where
  "config_files cfg BASH =
     [path_join (home cfg) ''.bashrc'', path_join (home cfg) ''.bash_profile'',
      path_join (home cfg) ''.profile'']"
| "config_files cfg ZSH =
     [path_join (home cfg) ''.zshrc'', path_join (home cfg) ''.zprofile'',
      path_join (home cfg) ''.zshenv'']"
| "config_files cfg SH = [path_join (home cfg) ''.profile'']"

subsection \<open>The world: text files, the backup directory, the clock\<close>

text \<open>
  One archive: the entries written by \<^verbatim>\<open>zf.write\<close> in order (name and bytes), and the
  object stored under \<^verbatim>\<open>metadata.json\<close>, if there is one. The JSON text of the metadata
  is not modelled: \<^verbatim>\<open>json.loads\<close> returns what \<^verbatim>\<open>json.dumps\<close> was given. Bytes and
  decoded text are identified.
\<close>

record metadata =
  md_timestamp :: string
  md_files :: "string list"
  md_message :: string

record archive =
  entries :: "(string \<times> string) list"
  meta :: "metadata option"

datatype zipfile = BadZip | Zip archive

text \<open>
  \<^item> \<open>files\<close>: the regular text files, path to content (configuration files among them);
  \<^item> \<open>readonly\<close>: existing files that cannot be opened for writing;
  \<^item> \<open>resolve\<close>: how the file system resolves the spelling of a path (a relative
    path, \<^verbatim>\<open>//\<close>, \<^verbatim>\<open>..\<close>, a symbolic link) to the path of the file it names;
    it is consulted where a user-supplied backup id is tried as a path. The paths that the
    program builds itself for configuration files and restore targets are the keys of
    \<open>files\<close> as they are;
  \<^item> \<open>dirs\<close>: the resolved paths of the existing directories (consulted only where
    a user-supplied backup id is tried as a path);
  \<^item> \<open>archives\<close>: the files of the backup directory, name to content, in the order in
    which the directory is scanned;
  \<^item> \<open>backup_dir_writable\<close>: whether a new archive can be created there;
  \<^item> \<open>clock\<close>, \<open>ticks\<close>: \<^verbatim>\<open>datetime.now().strftime("%Y%m%d_%H%M%S")\<close>; the
    \<open>n\<close>-th reading of the clock returns \<open>clock n\<close>.
  Files whose content cannot be read or decoded, and configuration paths that are
  directories, are outside the model.
\<close>

record world =
  files :: "string \<rightharpoonup> string"
  readonly :: "string set"
  resolve :: "string \<Rightarrow> string"
  dirs :: "string set"
  archives :: "(string \<times> zipfile) list"
  backup_dir_writable :: bool
  clock :: "nat \<Rightarrow> string"
  ticks :: nat

datatype io_error = PermissionError

definition now :: "world \<Rightarrow> string \<times> world" where
  "now w = (clock w (ticks w), w\<lparr>ticks := Suc (ticks w)\<rparr>)"

text \<open>\<^verbatim>\<open>Path(p).exists()\<close> for a configuration file or a restore target.\<close>

definition file_exists :: "world \<Rightarrow> string \<Rightarrow> bool" where
  "file_exists w p \<longleftrightarrow> files w p \<noteq> None"

text \<open>\<^verbatim>\<open>Path(p).touch()\<close> where the file is absent: an empty, writable file appears.\<close>

definition touch :: "string \<Rightarrow> world \<Rightarrow> world" where
  "touch p w =
     (if file_exists w p then w
      else w\<lparr>files := (files w)(p \<mapsto> []), readonly := readonly w - {p}\<rparr>)"

text \<open>
  Writing a whole file (\<^verbatim>\<open>open(p, 'w')\<close> followed by \<^verbatim>\<open>writelines\<close>, or
  \<^verbatim>\<open>write_bytes\<close>): refused on a read-only file, otherwise the content is replaced (the
  file is created when absent).
\<close>

definition write_file :: "string \<Rightarrow> string \<Rightarrow> world \<Rightarrow> io_error + world" where
  "write_file p content w =
     (if file_exists w p \<and> p \<in> readonly w then Inl PermissionError
      else Inr (w\<lparr>files := (files w)(p \<mapsto> content), readonly := readonly w - {p}\<rparr>))"

subsection \<open>Config file accessor\<close>

text \<open>
  Text mode with universal newlines: \<^verbatim>\<open>\r\n\<close> and a lone \<^verbatim>\<open>\r\<close> are read as
  \<^verbatim>\<open>\n\<close>.
\<close>

fun universal_newlines :: "string \<Rightarrow> string" where
  "universal_newlines [] = []"
| "universal_newlines (c # cs) =
     (if c = carriage_return then
        (case cs of
           [] \<Rightarrow> [newline]
         | d # ds \<Rightarrow> if d = newline then newline # universal_newlines ds
                     else newline # universal_newlines cs)
      else c # universal_newlines cs)"

text \<open>Lines with their terminators; the last one may lack it.\<close>

fun split_lines :: "string \<Rightarrow> string list" where
  "split_lines [] = []"
| "split_lines (c # cs) =
     (if c = newline then [newline] # split_lines cs
      else (case split_lines cs of [] \<Rightarrow> [[c]] | l # ls \<Rightarrow> (c # l) # ls))"

text \<open>\<^verbatim>\<open>f.readlines()\<close>\<close>

definition readlines :: "string \<Rightarrow> string list" where
  "readlines content = split_lines (universal_newlines content)"

definition read_config_file :: "world \<Rightarrow> string \<Rightarrow> string list" where
  "read_config_file w filepath =
     (case files w filepath of
        None \<Rightarrow> []
      | Some content \<Rightarrow> readlines content)"

definition write_config_file ::
  "config \<Rightarrow> string \<Rightarrow> string list \<Rightarrow> world \<Rightarrow> io_error + world" where
  "write_config_file cfg filepath lines w =
     (if dry_run cfg then Inr w else write_file filepath (concat lines) w)"

subsection \<open>Shell registry\<close>

definition find_existing_config_files :: "config \<Rightarrow> shell \<Rightarrow> world \<Rightarrow> string list" where
  "find_existing_config_files cfg sh w = filter (file_exists w) (config_files cfg sh)"

definition get_primary_config_file :: "config \<Rightarrow> shell \<Rightarrow> world \<Rightarrow> string \<times> world" where
  "get_primary_config_file cfg sh w =
     (case find_existing_config_files cfg sh w of
        f # _ \<Rightarrow> (f, w)
      | [] \<Rightarrow>
          (let primary = hd (config_files cfg sh)
           in if \<not> dry_run cfg then (primary, touch primary w) else (primary, w)))"

subsection \<open>Dictionaries\<close>

text \<open>
  A Python \<^verbatim>\<open>dict\<close> as an association list in insertion order: assigning to a key that
  is present keeps its position.
\<close>

type_synonym ('k, 'v) dict = "('k \<times> 'v) list"

definition dict_set :: "('k, 'v) dict \<Rightarrow> 'k \<Rightarrow> 'v \<Rightarrow> ('k, 'v) dict" where
  "dict_set d k v =
     (if k \<in> fst ` set d then map (\<lambda>(k', v'). if k' = k then (k', v) else (k', v')) d
      else d @ [(k, v)])"

definition dict_update :: "('k, 'v) dict \<Rightarrow> ('k, 'v) dict \<Rightarrow> ('k, 'v) dict" where
  "dict_update d e = fold (\<lambda>(k, v) acc. dict_set acc k v) e d"

definition dict_get :: "('k, 'v) dict \<Rightarrow> 'k \<Rightarrow> 'v option" where
  "dict_get d k = map_of d k"

definition dict_contains :: "('k, 'v) dict \<Rightarrow> 'k \<Rightarrow> bool" where
  "dict_contains d k \<longleftrightarrow> map_of d k \<noteq> None"

subsection \<open>Variable store: reading\<close>

definition get_variables_from_file :: "world \<Rightarrow> string \<Rightarrow> (string, string) dict" where
  "get_variables_from_file w filepath =
     fold (\<lambda>line variables.
             case parse_export_line line of
               Some (name, v) \<Rightarrow> dict_set variables name v
             | None \<Rightarrow> variables)
          (read_config_file w filepath) []"

text \<open>The merge loop shared by \<^verbatim>\<open>get_all_variables\<close>, \<^verbatim>\<open>sync_variables\<close> and
  \<^verbatim>\<open>export_variables\<close>: every existing file in candidate order, \<^verbatim>\<open>dict.update\<close>.\<close>

definition shell_variables :: "config \<Rightarrow> world \<Rightarrow> shell \<Rightarrow> (string, string) dict" where
  "shell_variables cfg w sh =
     fold (\<lambda>config_file shell_vars.
             dict_update shell_vars (get_variables_from_file w config_file))
          (find_existing_config_files cfg sh w) []"

definition get_all_variables ::
  "config \<Rightarrow> shell list \<Rightarrow> world \<Rightarrow> (string, (string, string) dict) dict" where
  "get_all_variables cfg shells w =
     fold (\<lambda>sh all_vars. dict_set all_vars (shell_value sh) (shell_variables cfg w sh))
          shells []"


subsection \<open>Variable store: rewriting one file\<close>

text \<open>\<^verbatim>\<open>parsed and parsed[0] == name\<close>\<close>

definition assigns :: "string \<Rightarrow> string \<Rightarrow> bool" where
  "assigns name line \<longleftrightarrow>
     (case parse_export_line line of Some (n, _) \<Rightarrow> n = name | None \<Rightarrow> False)"

text \<open>The loop of \<^verbatim>\<open>update_variable_in_file\<close>: the new lines and the flag
  \<^verbatim>\<open>variable_updated\<close>.\<close>

definition update_loop :: "string \<Rightarrow> string \<Rightarrow> string list \<Rightarrow> string list \<times> bool" where
  "update_loop name formatted_line lines =
     fold (\<lambda>line (new_lines, variable_updated).
             if assigns name line then (new_lines @ [formatted_line], True)
             else (new_lines @ [line], variable_updated))
          lines ([], False)"

text \<open>The lines handed to \<^verbatim>\<open>write_config_file\<close>.\<close>

definition updated_lines :: "string \<Rightarrow> string \<Rightarrow> string list \<Rightarrow> string list" where
  "updated_lines name v lines =
     (let formatted_line = format_export_line name v;
          (new_lines, variable_updated) = update_loop name formatted_line lines
      in if \<not> variable_updated then
           (if new_lines \<noteq> [] \<and> \<not> endswith_chr (last new_lines) newline
            then new_lines @ [[newline]] else new_lines) @ [formatted_line]
         else new_lines)"

definition update_variable_in_file ::
  "config \<Rightarrow> string \<Rightarrow> string \<Rightarrow> string \<Rightarrow> world \<Rightarrow> bool \<times> world" where
  "update_variable_in_file cfg filepath name v w =
     (if dry_run cfg then (True, w)
      else
        (case write_config_file cfg filepath
                (updated_lines name v (read_config_file w filepath)) w of
           Inl _ \<Rightarrow> (False, w)
         | Inr w' \<Rightarrow> (True, w')))"

definition remove_variable_from_file ::
  "config \<Rightarrow> string \<Rightarrow> string \<Rightarrow> world \<Rightarrow> bool \<times> world" where
  "remove_variable_from_file cfg filepath name w =
     (if dry_run cfg then (True, w)
      else
        (case write_config_file cfg filepath
                (filter (\<lambda>line. \<not> assigns name line) (read_config_file w filepath)) w of
           Inl _ \<Rightarrow> (False, w)
         | Inr w' \<Rightarrow> (True, w')))"

subsection \<open>Backup and restore\<close>

definition archive_name :: "string \<Rightarrow> string" where
  "archive_name timestamp = ''backup_'' @ timestamp @ ''.zip''"

text \<open>The entries added by the loop over \<^verbatim>\<open>files_to_backup\<close>: missing files are
  skipped, each entry is named by the base name.\<close>

definition backup_entries :: "world \<Rightarrow> string list \<Rightarrow> (string \<times> string) list" where
  "backup_entries w files_to_backup =
     concat (map (\<lambda>filepath. case files w filepath of
                                 None \<Rightarrow> []
                               | Some content \<Rightarrow> [(basename filepath, content)])
                 files_to_backup)"

text \<open>\<^verbatim>\<open>message or "Auto-backup before changes"\<close>\<close>

definition message_or_default :: "string option \<Rightarrow> string" where
  "message_or_default message =
     (case message of
        None \<Rightarrow> ''Auto-backup before changes''
      | Some m \<Rightarrow> if m = [] then ''Auto-backup before changes'' else m)"

text \<open>
  The clock is read before the \<^verbatim>\<open>try\<close>; an archive that cannot be created raises
  inside it and the handler returns \<^verbatim>\<open>None\<close>. An archive of the same name is replaced.
\<close>

definition create_backup ::
  "config \<Rightarrow> string list \<Rightarrow> string option \<Rightarrow> world \<Rightarrow> string option \<times> world" where
  "create_backup cfg files_to_backup message w =
     (if \<not> backup_enabled cfg \<or> dry_run cfg then (None, w)
      else
        (let (timestamp, w1) = now w;
             backup_name = archive_name timestamp
         in if \<not> backup_dir_writable w1 then (None, w1)
            else
              (let zf = \<lparr>entries = backup_entries w1 files_to_backup,
                         meta = Some \<lparr>md_timestamp = timestamp, md_files = files_to_backup,
                                      md_message = message_or_default message\<rparr>\<rparr>
               in (Some (path_join (backup_dir cfg) backup_name),
                   w1\<lparr>archives := dict_set (archives w1) backup_name (Zip zf)\<rparr>))))"

text \<open>\<^verbatim>\<open>zf.namelist()\<close> and \<^verbatim>\<open>zf.read(name)\<close> (the last entry of that name).\<close>

definition namelist :: "archive \<Rightarrow> string list" where
  "namelist zf =
     map fst (entries zf) @ (case meta zf of None \<Rightarrow> [] | Some _ \<Rightarrow> [''metadata.json''])"

definition zf_read :: "archive \<Rightarrow> string \<Rightarrow> string option" where
  "zf_read zf name = map_of (rev (entries zf)) name"

text \<open>The names matching \<^verbatim>\<open>backup_*.zip\<close>.\<close>

definition glob_backup :: "string \<Rightarrow> bool" where
  "glob_backup n \<longleftrightarrow>
     11 \<le> length n \<and> take 7 n = ''backup_'' \<and> drop (length n - 4) n = ''.zip''"

text \<open>\<^verbatim>\<open>xs[:limit]\<close> for an integer limit.\<close>

definition slice_to :: "int \<Rightarrow> 'a list \<Rightarrow> 'a list" where
  "slice_to limit xs =
     (if 0 \<le> limit then take (nat limit) xs else take (length xs - nat (- limit)) xs)"

text \<open>\<^verbatim>\<open>stem.replace("backup_", "")\<close>: every occurrence, left to right.\<close>

function remove_backup_prefix :: "string \<Rightarrow> string" where
  "remove_backup_prefix s =
     (if take 7 s = ''backup_'' then remove_backup_prefix (drop 7 s)
      else (case s of [] \<Rightarrow> [] | c # cs \<Rightarrow> c # remove_backup_prefix cs))"
  by pat_completeness auto
termination
proof (relation "measure length")
  show "wf (measure length)" by simp
next
  fix s :: string
  assume "take 7 s = ''backup_''"
  then show "(drop 7 s, s) \<in> measure length" by (cases s) auto
next
  fix s :: string and c cs
  assume "s = c # cs"
  then show "(cs, s) \<in> measure length" by simp
qed

record backup_summary =
  bs_path :: string
  bs_name :: string
  bs_timestamp :: string
  bs_message :: string
  bs_files :: "string list"

text \<open>
  One iteration of the loop of \<^verbatim>\<open>list_backups\<close>; an unreadable archive, or a
  \<^verbatim>\<open>metadata.json\<close> that is a backed-up file rather than the metadata object, raises and
  is skipped.
\<close>

definition backup_summary_of :: "config \<Rightarrow> string \<Rightarrow> zipfile \<Rightarrow> backup_summary list" where
  "backup_summary_of cfg name z =
     (case z of
        BadZip \<Rightarrow> []
      | Zip zf \<Rightarrow>
          if ''metadata.json'' \<in> set (namelist zf) then
            (case meta zf of
               None \<Rightarrow> []
             | Some md \<Rightarrow>
                 [\<lparr>bs_path = path_join (backup_dir cfg) name, bs_name = name,
                   bs_timestamp = md_timestamp md, bs_message = md_message md,
                   bs_files = md_files md\<rparr>])
          else
            [\<lparr>bs_path = path_join (backup_dir cfg) name, bs_name = name,
              bs_timestamp = remove_backup_prefix (take (length name - 4) name),
              bs_message = ''Legacy backup'', bs_files = namelist zf\<rparr>])"

definition list_backups :: "config \<Rightarrow> int \<Rightarrow> world \<Rightarrow> backup_summary list" where
  "list_backups cfg limit w =
     (let backup_files =
            slice_to limit (rev (sort (filter glob_backup (map fst (archives w)))))
      in concat (map (\<lambda>name. case map_of (archives w) name of
                                None \<Rightarrow> []
                              | Some z \<Rightarrow> backup_summary_of cfg name z)
                     backup_files))"

text \<open>\<^verbatim>\<open>backup_id in str(backup_file)\<close>\<close>

definition contains_substring :: "string \<Rightarrow> string \<Rightarrow> bool" where
  "contains_substring s sub \<longleftrightarrow> (\<exists>i \<in> set [0 ..< Suc (length s)]. take (length sub) (drop i s) = sub)"

text \<open>
  \<^verbatim>\<open>Path(backup_id).exists()\<close> asks the file system: the id names an archive of the
  backup directory when it resolves to the same file as the path of one of them.
\<close>

definition archive_of_path :: "config \<Rightarrow> world \<Rightarrow> string \<Rightarrow> string option" where
  "archive_of_path cfg w p =
     List.find (\<lambda>name. resolve w (path_join (backup_dir cfg) name) = resolve w p)
       (map fst (archives w))"

text \<open>
  Resolving the backup id: as a path that exists, else as a substring of the path of an
  archive matching the glob (the first in scan order). The result is the file name inside
  the backup directory together with \<^verbatim>\<open>backup_path.name\<close>; \<open>Inl ()\<close> stands for
  a path that exists and is not an archive there (opening it as a zip file raises).
\<close>

definition find_backup ::
  "config \<Rightarrow> world \<Rightarrow> string \<Rightarrow> (unit + string \<times> string) option" where
  "find_backup cfg w backup_id =
     (case archive_of_path cfg w backup_id of
        Some name \<Rightarrow> Some (Inr (name, basename backup_id))
      | None \<Rightarrow>
          if file_exists w (resolve w backup_id) \<or> resolve w backup_id \<in> dirs w
          then Some (Inl ())
          else
            (case List.find (\<lambda>name. contains_substring (path_join (backup_dir cfg) name) backup_id)
                    (filter glob_backup (map fst (archives w))) of
               None \<Rightarrow> None
             | Some name \<Rightarrow> Some (Inr (name, name))))"

text \<open>\<^verbatim>\<open>Path.home() / f".{filename}"\<close>\<close>

definition restore_target :: "config \<Rightarrow> string \<Rightarrow> string" where
  "restore_target cfg filename = path_join (home cfg) (''.'' @ filename)"

text \<open>The second pass of \<^verbatim>\<open>restore_backup\<close>: every entry but the metadata is written
  to its target; the first failing write ends the pass.\<close>

fun restore_entries :: "config \<Rightarrow> archive \<Rightarrow> string list \<Rightarrow> world \<Rightarrow> io_error + world" where
  "restore_entries cfg zf [] w = Inr w"
| "restore_entries cfg zf (filename # rest) w =
     (if filename \<noteq> ''metadata.json'' then
        (case zf_read zf filename of
           None \<Rightarrow> Inl PermissionError
         | Some content \<Rightarrow>
             (case write_file (restore_target cfg filename) content w of
                Inl e \<Rightarrow> Inl e
              | Inr w' \<Rightarrow> restore_entries cfg zf rest w'))
      else restore_entries cfg zf rest w)"

text \<open>The state reached when the second pass stops, whether it failed or not.\<close>

fun restore_entries_state :: "config \<Rightarrow> archive \<Rightarrow> string list \<Rightarrow> world \<Rightarrow> world" where
  "restore_entries_state cfg zf [] w = w"
| "restore_entries_state cfg zf (filename # rest) w =
     (if filename \<noteq> ''metadata.json'' then
        (case zf_read zf filename of
           None \<Rightarrow> w
         | Some content \<Rightarrow>
             (case write_file (restore_target cfg filename) content w of
                Inl e \<Rightarrow> w
              | Inr w' \<Rightarrow> restore_entries_state cfg zf rest w'))
      else restore_entries_state cfg zf rest w)"

definition restore_backup :: "config \<Rightarrow> string \<Rightarrow> world \<Rightarrow> bool \<times> world" where
  "restore_backup cfg backup_id w =
     (if dry_run cfg then (True, w)
      else
        (case find_backup cfg w backup_id of
           None \<Rightarrow> (False, w)
         | Some (Inl _) \<Rightarrow> (False, w)
         | Some (Inr (name, shown)) \<Rightarrow>
             (case map_of (archives w) name of
                None \<Rightarrow> (False, w)
              | Some BadZip \<Rightarrow> (False, w)
              | Some (Zip zf) \<Rightarrow>
                  (let files_to_backup =
                         filter (file_exists w)
                           (map (restore_target cfg)
                              (filter (\<lambda>filename. filename \<noteq> ''metadata.json'') (namelist zf)));
                       w1 = (if files_to_backup \<noteq> [] then
                               snd (create_backup cfg files_to_backup
                                      (Some (''Pre-restore backup (restoring from '' @ shown @ '')''))
                                      w)
                             else w)
                   in (case map_of (archives w1) name of
                         None \<Rightarrow> (False, w1)
                       | Some BadZip \<Rightarrow> (False, w1)
                       | Some (Zip zf2) \<Rightarrow>
                           (case restore_entries cfg zf2 (namelist zf2) w1 of
                              Inl _ \<Rightarrow> (False, restore_entries_state cfg zf2 (namelist zf2) w1)
                            | Inr w2 \<Rightarrow> (True, w2)))))))"


subsection \<open>Interactive confirmation\<close>

text \<open>\<^verbatim>\<open>str.lower()\<close> on code points below 256.\<close>

definition lower_chr :: "char \<Rightarrow> char" where
  "lower_chr c =
     (let n = (of_char c :: nat)
      in if (65 \<le> n \<and> n \<le> 90) \<or> (192 \<le> n \<and> n \<le> 222 \<and> n \<noteq> 215)
         then char_of (n + 32) else c)"

text \<open>\<^verbatim>\<open>input(...).lower().strip() != 'y'\<close> is false: the user agreed.\<close>

definition agreed :: "string \<Rightarrow> bool" where
  "agreed response \<longleftrightarrow> strip (map lower_chr response) = ''y''"

subsection \<open>Variable store: \<^verbatim>\<open>set_variable\<close> and \<^verbatim>\<open>remove_variable\<close>\<close>

text \<open>\<^verbatim>\<open>re.match(r'^[A-Za-z_][A-Za-z0-9_]*$', name)\<close>: the end anchor also holds before a
  final line feed.\<close>

definition name_accepted :: "string \<Rightarrow> bool" where
  "name_accepted name \<longleftrightarrow>
     is_identifier name \<or>
     (name \<noteq> [] \<and> last name = newline \<and> is_identifier (butlast name))"

text \<open>
  One iteration of the loop over the shells in \<^verbatim>\<open>set_variable\<close>: the existing files
  (or the primary file, created unless in dry-run mode), the first of them that defines
  the name, the de-duplicated append. The dictionary \<^verbatim>\<open>current_values\<close> only feeds
  the printed summary and is left out, as is everything printed.
\<close>

definition collect_file ::
  "config \<Rightarrow> string \<Rightarrow> shell \<Rightarrow> string list \<times> world \<Rightarrow> string list \<times> world" where
  "collect_file cfg name sh acc =
     (let (files_to_modify, w) = acc;
          existing = find_existing_config_files cfg sh w;
          (config_files', w1) =
            (if existing = [] then
               (let (primary, w') = get_primary_config_file cfg sh w in ([primary], w'))
             else (existing, w));
          found_in_file =
            List.find (\<lambda>config_file.
                         dict_contains (get_variables_from_file w1 config_file) name)
              config_files';
          file_to_modify = (case found_in_file of Some f \<Rightarrow> f | None \<Rightarrow> hd config_files')
      in (if file_to_modify \<in> set files_to_modify then files_to_modify
          else files_to_modify @ [file_to_modify], w1))"

text \<open>The loop \<^verbatim>\<open>for filepath in files_to_modify\<close> of \<^verbatim>\<open>set_variable\<close>.\<close>

definition apply_updates ::
  "config \<Rightarrow> string \<Rightarrow> string \<Rightarrow> string list \<Rightarrow> world \<Rightarrow> bool \<times> world" where
  "apply_updates cfg name v files_to_modify w =
     fold (\<lambda>filepath (success, w).
             let (ok, w') = update_variable_in_file cfg filepath name v w
             in (if ok then success else False, w'))
          files_to_modify (True, w)"

text \<open>
  \<open>response\<close> is what the user types at the prompt, read only when the prompt is shown.
\<close>

definition set_variable ::
  "config \<Rightarrow> string \<Rightarrow> string \<Rightarrow> shell list \<Rightarrow> bool \<Rightarrow> string option \<Rightarrow> string \<Rightarrow> world
     \<Rightarrow> bool \<times> world" where
  "set_variable cfg name v shells skip_confirmation specific_file response w =
     (if \<not> name_accepted name then (False, w)
      else
        (case (case specific_file of
                 Some f \<Rightarrow>
                   if f \<noteq> [] then (if file_exists w f then Some ([f], w) else None)
                   else Some (fold (collect_file cfg name) shells ([], w))
               | None \<Rightarrow> Some (fold (collect_file cfg name) shells ([], w))) of
           None \<Rightarrow> (False, w)
         | Some (files_to_modify, w1) \<Rightarrow>
             if \<not> skip_confirmation \<and> \<not> dry_run cfg \<and> \<not> agreed response then (False, w1)
             else
               (let w2 = (if backup_enabled cfg \<and> \<not> dry_run cfg \<and> files_to_modify \<noteq> []
                          then snd (create_backup cfg files_to_modify
                                      (Some (''Before setting '' @ name @ ''='' @ v)) w1)
                          else w1)
                in apply_updates cfg name v files_to_modify w2)))"

text \<open>The files that define the name, over all shells (no de-duplication).\<close>

definition files_defining :: "config \<Rightarrow> string \<Rightarrow> shell list \<Rightarrow> world \<Rightarrow> string list" where
  "files_defining cfg name shells w =
     concat (map (\<lambda>sh. filter (\<lambda>config_file.
                                  dict_contains (get_variables_from_file w config_file) name)
                          (find_existing_config_files cfg sh w))
                 shells)"

definition apply_removals ::
  "config \<Rightarrow> string \<Rightarrow> string list \<Rightarrow> world \<Rightarrow> bool \<times> world" where
  "apply_removals cfg name files_to_modify w =
     fold (\<lambda>filepath (success, w).
             let (ok, w') = remove_variable_from_file cfg filepath name w
             in (if ok then success else False, w'))
          files_to_modify (True, w)"

definition remove_variable ::
  "config \<Rightarrow> string \<Rightarrow> shell list \<Rightarrow> bool \<Rightarrow> string \<Rightarrow> world \<Rightarrow> bool \<times> world" where
  "remove_variable cfg name shells skip_confirmation response w =
     (let files_to_modify = files_defining cfg name shells w
      in if files_to_modify = [] then (True, w)
         else if \<not> skip_confirmation \<and> \<not> dry_run cfg \<and> \<not> agreed response then (False, w)
         else
           (let w1 = (if backup_enabled cfg \<and> \<not> dry_run cfg
                      then snd (create_backup cfg files_to_modify
                                  (Some (''Before removing '' @ name)) w)
                      else w)
            in apply_removals cfg name files_to_modify w1))"

subsection \<open>Sync engine\<close>








subsection \<open>Auxiliary notions used in the proofs\<close>


text \<open>What \<^verbatim>\<open>set_variable\<close> and its callees read and write of the world: the text
  files and their permissions.\<close>

definition file_view :: "world \<Rightarrow> (string \<rightharpoonup> string) \<times> string set" where
  "file_view w = (files w, readonly w)"

text \<open>
  The values that come back unchanged from formatting and parsing: no line feed; if the
  value is written quoted (it contains a special character), no double quote; if it is
  written bare, no whitespace at either end.
\<close>

definition roundtrip_safe :: "string \<Rightarrow> bool" where
  "roundtrip_safe v \<longleftrightarrow>
     newline \<notin> set v \<and>
     (if needs_quotes v then dquote \<notin> set v
      else v = [] \<or> (\<not> isspace (hd v) \<and> \<not> isspace (last v)))"

text \<open>
  The value normalisation in the specification's words: only trailing whitespace is
  removed before the quote test (\<^verbatim>\<open>str.rstrip()\<close> in place of the source's
  \<^verbatim>\<open>str.strip()\<close>).
\<close>

definition rstrip :: "string \<Rightarrow> string" where
  "rstrip s = rev (dropWhile isspace (rev s))"

definition spec_value :: "string \<Rightarrow> string" where
  "spec_value rest = remove_quotes (rstrip rest)"

text \<open>
  The shape of what \<^verbatim>\<open>readlines\<close> returns: no line is empty, a line feed occurs only
  as the last character of a line, no carriage return is left, and every line but the last
  ends with a line feed.
\<close>

definition proper_line :: "string \<Rightarrow> bool" where
  "proper_line l \<longleftrightarrow> l \<noteq> [] \<and> newline \<notin> set (butlast l) \<and> carriage_return \<notin> set l"

definition lines_ok :: "string list \<Rightarrow> bool" where
  "lines_ok ls \<longleftrightarrow>
     list_all proper_line ls \<and> list_all (\<lambda>l. endswith_chr l newline) (butlast ls)"

text \<open>The rewriting of the matching lines, as the specification describes it.\<close>

definition replace_assignments :: "string \<Rightarrow> string \<Rightarrow> string list \<Rightarrow> string list" where
  "replace_assignments name formatted_line lines =
     map (\<lambda>line. if assigns name line then formatted_line else line) lines"

text \<open>
  The sync argument is carried out on the variables that each file defines: \<open>var_view\<close>
  gives, for an existing file, the map from names to values that
  \<^verbatim>\<open>get_variables_from_file\<close> computes; \<open>merge_maps\<close> is the merge over a candidate
  list; \<open>target_file\<close> is the file that \<^verbatim>\<open>set_variable\<close> picks for one shell, and
  \<open>set_abs\<close> what the call does to the view.
\<close>

type_synonym varmap = "string \<rightharpoonup> string"

definition var_view :: "world \<Rightarrow> string \<Rightarrow> varmap option" where
  "var_view u f =
     (if file_exists u f then Some (map_of (get_variables_from_file u f)) else None)"

definition merge_maps :: "(string \<Rightarrow> varmap option) \<Rightarrow> string list \<Rightarrow> varmap" where
  "merge_maps V fs = fold (\<lambda>f acc. case V f of None \<Rightarrow> acc | Some m \<Rightarrow> acc ++ m) fs Map.empty"

definition file_value :: "(string \<Rightarrow> varmap option) \<Rightarrow> string \<Rightarrow> string \<Rightarrow> string option" where
  "file_value V f n = (case V f of None \<Rightarrow> None | Some m \<Rightarrow> m n)"




abbreviation merge_step :: "(string \<Rightarrow> varmap option) \<Rightarrow> string \<Rightarrow> varmap \<Rightarrow> varmap" where
  "merge_step V \<equiv> (\<lambda>f acc. case V f of None \<Rightarrow> acc | Some m \<Rightarrow> acc ++ m)"


subsection \<open>Example configurations and worlds\<close>

definition cfg_real :: config where
  "cfg_real = \<lparr>home = ''/h'', config_dir = ''/h/.config/setvar'', backup_enabled = True,
                dry_run = False\<rparr>"

definition cfg_dry :: config where
  "cfg_dry = cfg_real\<lparr>dry_run := True\<rparr>"

definition world_of :: "(string \<times> string) list \<Rightarrow> world" where
  "world_of fs =
     \<lparr>files = map_of fs, readonly = {}, resolve = (\<lambda>p. p), dirs = {}, archives = [],
      backup_dir_writable = True,
      clock = (\<lambda>n. ''20240101_120000''), ticks = 0\<rparr>"
section \<open>Properties of the assignment codec\<close>

lemma isspace_literals [simp]:
  "isspace newline" "isspace (CHR 0x20)" "\<not> isspace (CHR ''='')" "\<not> isspace dquote"
  "\<not> isspace squote" "\<not> isspace (CHR ''e'')"
  by (simp_all add: isspace_def whitespace_chars_def)

lemma ident_start_not_space: "ident_start c \<Longrightarrow> \<not> isspace c"
  by (auto simp: ident_start_def isspace_def whitespace_chars_def)

lemma ident_start_char: "ident_start c \<Longrightarrow> ident_char c"
  by (simp add: ident_char_def)

lemma ident_char_literals [simp]:
  "\<not> ident_char (CHR ''='')" "\<not> ident_char (CHR 0x20)" "\<not> ident_char newline"
  by (simp_all add: ident_char_def ident_start_def)

lemma ident_char_not_space: "ident_char c \<Longrightarrow> \<not> isspace c"
  by (auto simp: ident_char_def ident_start_def isspace_def whitespace_chars_def)

lemma match_name_eq_append:
  assumes "is_identifier n"
  shows "match_name_eq (n @ CHR ''='' # r) = Some (n, r)"
proof -
  from assms obtain c cs where n: "n = c # cs" and c: "ident_start c" and all: "\<forall>x\<in>set n. ident_char x"
    by (cases n) (auto simp: is_identifier_def list_all_iff)
  have d: "dropWhile ident_char (n @ CHR ''='' # r) = CHR ''='' # r"
    using all by (simp add: dropWhile_append3)
  have t: "takeWhile ident_char (n @ CHR ''='' # r) = n"
    using all by (simp add: takeWhile_tail)
  show ?thesis
    unfolding match_name_eq_def using c d t by (simp add: n)
qed

lemma match_name_eq_SomeD:
  assumes "match_name_eq s = Some (n, r)"
  shows "is_identifier n \<and> s = n @ CHR ''='' # r"
proof -
  from assms obtain c cs where s: "s = c # cs" and c: "ident_start c"
    by (cases s) (auto simp: match_name_eq_def split: if_splits)
  from assms s c have d: "dropWhile ident_char s = CHR ''='' # r" and n: "n = takeWhile ident_char s"
    by (auto simp: match_name_eq_def split: if_splits list.splits)
  have "takeWhile ident_char s @ dropWhile ident_char s = s" by simp
  then have eq: "s = n @ CHR ''='' # r" unfolding d n[symmetric] by simp
  have "list_all ident_char n" unfolding n list_all_iff by (auto dest: set_takeWhileD)
  moreover have "n \<noteq> [] \<and> hd n = c" using s c n by (simp add: ident_start_char)
  ultimately show ?thesis using eq c by (simp add: is_identifier_def)
qed


lemma dropWhile_no_newline:
  "newline \<notin> set v \<Longrightarrow> dropWhile (\<lambda>c. c \<noteq> newline) v = []"
  by auto

lemma takeWhile_no_newline:
  "newline \<notin> set v \<Longrightarrow> takeWhile (\<lambda>c. c \<noteq> newline) v = v"
  by auto

lemma match_rest_plain: "newline \<notin> set v \<Longrightarrow> match_rest v = Some v"
  by (simp add: match_rest_def dropWhile_no_newline takeWhile_no_newline
      del: dropWhile_eq_Nil_conv takeWhile_eq_all_conv)

lemma match_rest_terminated: "newline \<notin> set v \<Longrightarrow> match_rest (v @ [newline]) = Some v"
proof -
  assume a: "newline \<notin> set v"
  then have d: "dropWhile (\<lambda>c. c \<noteq> newline) v = []" by (rule dropWhile_no_newline)
  have "dropWhile (\<lambda>c. c \<noteq> newline) (v @ [newline]) = [newline]"
    by (simp add: dropWhile_append3 d del: dropWhile_eq_Nil_conv)
  moreover have "takeWhile (\<lambda>c. c \<noteq> newline) (v @ [newline]) = v"
    by (simp add: takeWhile_tail takeWhile_no_newline [OF a] del: takeWhile_eq_all_conv)
  ultimately show ?thesis by (simp add: match_rest_def)
qed

lemma match_rest_SomeD:
  assumes "match_rest s = Some v"
  shows "newline \<notin> set v \<and> (s = v \<or> s = v @ [newline])"
proof -
  let ?P = "\<lambda>c. c \<noteq> newline"
  from assms have v: "v = takeWhile ?P s" and r: "dropWhile ?P s = [] \<or> dropWhile ?P s = [newline]"
    by (simp_all add: match_rest_def Let_def del: dropWhile_eq_Cons_conv dropWhile_eq_Nil_conv split: if_splits)
  have "takeWhile ?P s @ dropWhile ?P s = s" by simp
  with r have "s = v \<or> s = v @ [newline]" unfolding v by (metis append_Nil2)
  moreover have "newline \<notin> set v" unfolding v by (auto dest: set_takeWhileD)
  ultimately show ?thesis by simp
qed

lemma match_rest_iff:
  "match_rest s = Some v \<longleftrightarrow> newline \<notin> set v \<and> (s = v \<or> s = v @ [newline])"
  using match_rest_SomeD match_rest_plain match_rest_terminated by blast

lemma match_rest_interior:
  "newline \<in> set v \<Longrightarrow> match_rest (v @ [newline]) = None"
proof -
  assume a: "newline \<in> set v"
  show ?thesis
  proof (cases "match_rest (v @ [newline])")
    case None then show ?thesis .
  next
    case (Some u)
    then have "newline \<notin> set u" and "v @ [newline] = u \<or> v @ [newline] = u @ [newline]"
      using match_rest_SomeD by blast+
    with a show ?thesis by auto
  qed
qed

lemma dropWhile_all: "\<forall>c\<in>set ws. P c \<Longrightarrow> dropWhile P (ws @ r) = dropWhile P r"
  by (induction ws) auto

lemma match_assignment_append:
  assumes "is_identifier n"
  shows "match_assignment (n @ CHR ''='' # r) =
           (case match_rest r of None \<Rightarrow> None | Some v \<Rightarrow> Some (n, v))"
  by (simp add: match_assignment_def match_name_eq_append [OF assms])

lemma identifier_head:
  assumes "is_identifier n"
  obtains c cs where "n = c # cs" "ident_start c"
  using assms by (cases n) (auto simp: is_identifier_def)

lemma dropWhile_space_identifier:
  assumes "is_identifier n"
  shows "dropWhile isspace (n @ r) = n @ r"
proof -
  from assms obtain c cs where "n = c # cs" "ident_start c" by (rule identifier_head)
  then show ?thesis by (simp add: ident_start_not_space)
qed

lemma match_bare_decomp:
  assumes ws: "\<forall>c\<in>set ws1. isspace c" and n: "is_identifier n"
  shows "match_bare (ws1 @ n @ CHR ''='' # r) =
           (case match_rest r of None \<Rightarrow> None | Some v \<Rightarrow> Some (n, v))"
proof -
  have "dropWhile isspace (ws1 @ n @ CHR ''='' # r) = n @ CHR ''='' # r"
    using dropWhile_all [OF ws] dropWhile_space_identifier [OF n] by simp
  then show ?thesis by (simp add: match_bare_def match_assignment_append [OF n])
qed

lemma match_export_decomp:
  assumes ws1: "\<forall>c\<in>set ws1. isspace c" and ws2: "\<forall>c\<in>set ws2. isspace c" "ws2 \<noteq> []"
    and n: "is_identifier n"
  shows "match_export (ws1 @ ''export'' @ ws2 @ n @ CHR ''='' # r) =
           (case match_rest r of None \<Rightarrow> None | Some v \<Rightarrow> Some (n, v))"
proof -
  let ?t = "ws2 @ n @ CHR ''='' # r"
  have a: "dropWhile isspace (ws1 @ ''export'' @ ?t) = ''export'' @ ?t"
    using dropWhile_all [OF ws1, of "''export'' @ ?t"] by simp
  have b: "take 6 (''export'' @ ?t) = ''export''" "drop 6 (''export'' @ ?t) = ?t" by simp_all
  have c: "?t \<noteq> []" "isspace (hd ?t)" using ws2 by (cases ws2; simp)+
  have d: "dropWhile isspace ?t = n @ CHR ''='' # r"
    using dropWhile_all [OF ws2(1)] dropWhile_space_identifier [OF n] by simp
  show ?thesis
    unfolding match_export_def a Let_def b using c d
    by (simp add: match_assignment_append [OF n])
qed

lemma takeWhile_ident_identifier:
  assumes "is_identifier n"
  shows "takeWhile ident_char (n @ CHR ''='' # r) = n"
  using assms by (simp add: is_identifier_def list_all_iff takeWhile_tail)

lemma match_export_bare_form:
  assumes ws: "\<forall>c\<in>set ws1. isspace c" and n: "is_identifier n"
  shows "match_export (ws1 @ n @ CHR ''='' # r) = None"
proof -
  let ?s = "n @ CHR ''='' # r"
  have s: "dropWhile isspace (ws1 @ ?s) = ?s"
    using dropWhile_all [OF ws] dropWhile_space_identifier [OF n] by simp
  have "\<not> (take 6 ?s = ''export'' \<and> drop 6 ?s \<noteq> [] \<and> isspace (hd (drop 6 ?s)))"
  proof
    assume h: "take 6 ?s = ''export'' \<and> drop 6 ?s \<noteq> [] \<and> isspace (hd (drop 6 ?s))"
    then obtain x xs where d: "drop 6 ?s = x # xs" and x: "isspace x"
      by (cases "drop 6 ?s") auto
    have "take 6 ?s @ drop 6 ?s = ?s" by (rule append_take_drop_id)
    with h d have eq: "?s = ''export'' @ x # xs" by simp
    have nx: "\<not> ident_char x" using x ident_char_not_space by blast
    have "takeWhile ident_char (''export'' @ x # xs) = ''export''"
      using nx by (simp add: ident_char_def ident_start_def)
    with eq takeWhile_ident_identifier [OF n, of r] have "n = ''export''" by simp
    with eq have "x = CHR ''=''" by simp
    with x show False by simp
  qed
  then show ?thesis unfolding match_export_def s Let_def by auto
qed

lemma strip_append_space:
  assumes "\<forall>c\<in>set l. isspace c" "\<forall>c\<in>set r. isspace c"
  shows "strip (l @ t @ r) = strip t"
proof -
  have a: "dropWhile isspace (l @ t @ r) = dropWhile isspace (t @ r)"
    using dropWhile_all [OF assms(1)] by simp
  show ?thesis
  proof (cases "\<forall>c\<in>set t. isspace c")
    case True
    then have e1: "dropWhile isspace (t @ r) = []" using assms(2) by auto
    from True have e2: "dropWhile isspace t = []" by auto
    show ?thesis unfolding strip_def a e1 e2 by simp
  next
    case False
    then have "dropWhile isspace t \<noteq> []" by auto
    then have b: "dropWhile isspace (t @ r) = dropWhile isspace t @ r"
      by (metis False dropWhile_append1)
    have "\<forall>c\<in>set (rev r). isspace c" using assms(2) by simp
    from dropWhile_all [OF this]
    have "dropWhile isspace (rev r @ rev (dropWhile isspace t)) = dropWhile isspace (rev (dropWhile isspace t))" .
    then show ?thesis by (simp add: strip_def a b)
  qed
qed

lemma strip_fixed:
  "strip t = t \<longleftrightarrow> t = [] \<or> (\<not> isspace (hd t) \<and> \<not> isspace (last t))"
proof (cases t)
  case Nil
  then show ?thesis by (simp add: strip_def)
next
  case (Cons a u)
  show ?thesis
  proof (cases "isspace a")
    case True
    have "length (strip t) \<le> length (dropWhile isspace t)"
      unfolding strip_def using length_dropWhile_le [of isspace "rev (dropWhile isspace t)"]
      by simp
    also have "\<dots> < length t" using True Cons
      by (simp add: length_dropWhile_le le_imp_less_Suc)
    finally have "strip t \<noteq> t" by auto
    with True Cons show ?thesis by simp
  next
    case False
    then have d: "dropWhile isspace t = t" using Cons by simp
    have rt: "rev t = last t # rev (butlast t)" using Cons
      by (metis append_butlast_last_id list.distinct(1) rev.simps(2) rev_rev_ident rev_singleton_conv rev_append append_Cons append_Nil)
    show ?thesis
    proof (cases "isspace (last t)")
      case True
      have "dropWhile isspace (rev t) = dropWhile isspace (rev (butlast t))"
        by (subst rt) (simp add: True)
      then have "length (strip t) = length (dropWhile isspace (rev (butlast t)))"
        by (simp add: strip_def d)
      also have "\<dots> \<le> length (rev (butlast t))" by (rule length_dropWhile_le)
      also have "\<dots> < length t" using Cons by simp
      finally have "strip t \<noteq> t" by auto
      with True Cons show ?thesis by simp
    next
      case F2: False
      have "dropWhile isspace (last t # rev (butlast t)) = last t # rev (butlast t)"
        using F2 by simp
      then have "dropWhile isspace (rev t) = rev t" unfolding rt .
      then have "strip t = t" by (simp add: strip_def d)
      with False F2 Cons show ?thesis by simp
    qed
  qed
qed

lemma set_strip: "set (strip t) \<subseteq> set t"
proof -
  have "set (strip t) = set (dropWhile isspace (rev (dropWhile isspace t)))" by (simp add: strip_def)
  also have "\<dots> \<subseteq> set (rev (dropWhile isspace t))" by (rule set_dropWhileD [THEN subsetI]) 
  also have "\<dots> \<subseteq> set t" by (auto dest: set_dropWhileD)
  finally show ?thesis .
qed

lemma remove_quotes_unquoted:
  "dquote \<notin> set t \<Longrightarrow> squote \<notin> set t \<Longrightarrow> remove_quotes t = t"
  by (cases t) (auto simp: remove_quotes_def startswith_chr_def)

lemma remove_quotes_dquoted: "remove_quotes (dquote # u @ [dquote]) = u"
  by (simp add: remove_quotes_def startswith_chr_def endswith_chr_def butlast_append)

lemma strip_dquoted: "strip (dquote # u @ [dquote]) = dquote # u @ [dquote]"
  by (simp add: strip_fixed)

lemma escape_dquotes_fixed: "escape_dquotes v = v \<longleftrightarrow> dquote \<notin> set v"
proof
  assume "dquote \<notin> set v"
  then show "escape_dquotes v = v" unfolding escape_dquotes_def by (induction v) auto
next
  assume a: "escape_dquotes v = v"
  have len: "length (escape_dquotes u) \<ge> length u" for u
    unfolding escape_dquotes_def by (induction u) auto
  have "dquote \<in> set u \<Longrightarrow> length (escape_dquotes u) > length u" for u
  proof (induction u)
    case Nil then show ?case by simp
  next
    case (Cons c u)
    then show ?case using len [of u] by (auto simp: escape_dquotes_def)
  qed
  with a show "dquote \<notin> set v" by force
qed

lemma newline_escape_dquotes: "newline \<in> set (escape_dquotes v) \<longleftrightarrow> newline \<in> set v"
  unfolding escape_dquotes_def by (induction v) auto

lemma strip_decomp:
  "\<exists>l r. s = l @ strip s @ r \<and> (\<forall>c\<in>set l. isspace c) \<and> (\<forall>c\<in>set r. isspace c)"
proof -
  let ?u = "dropWhile isspace s"
  have 1: "takeWhile isspace s @ ?u = s" by simp
  have "rev (rev ?u) = rev (takeWhile isspace (rev ?u) @ dropWhile isspace (rev ?u))"
    by (simp only: takeWhile_dropWhile_id)
  then have "?u = rev (dropWhile isspace (rev ?u)) @ rev (takeWhile isspace (rev ?u))"
    by (simp only: rev_rev_ident rev_append)
  then have 2: "strip s @ rev (takeWhile isspace (rev ?u)) = ?u"
    unfolding strip_def by (rule sym)
  have "s = takeWhile isspace s @ strip s @ rev (takeWhile isspace (rev ?u))"
    using 1 2 by metis
  moreover have "\<forall>c\<in>set (takeWhile isspace s). isspace c" by (auto dest: set_takeWhileD)
  moreover have "\<forall>c\<in>set (rev (takeWhile isspace (rev ?u))). isspace c"
    by (auto dest: set_takeWhileD)
  ultimately show ?thesis by blast
qed

lemma strip_idem: "strip (strip s) = strip s"
proof -
  obtain l r where "s = l @ strip s @ r" "\<forall>c\<in>set l. isspace c" "\<forall>c\<in>set r. isspace c"
    using strip_decomp by blast
  then show ?thesis using strip_append_space [of l r "strip s"] by simp
qed

lemma strip_ends: "strip s = [] \<or> (\<not> isspace (hd (strip s)) \<and> \<not> isspace (last (strip s)))"
  using strip_idem [of s] by (simp add: strip_fixed)

lemma remove_quotes_explicit:
  "remove_quotes t =
     (if t \<noteq> [] \<and> hd t = last t \<and> (hd t = dquote \<or> hd t = squote) then butlast (tl t) else t)"
proof (cases t)
  case Nil
  then show ?thesis by (simp add: remove_quotes_def startswith_chr_def)
next
  case (Cons a u)
  then have rt: "rev t = last t # rev (butlast t)"
    by (metis append_butlast_last_id list.distinct(1) rev.simps(2) rev_rev_ident rev_singleton_conv rev_append append_Cons append_Nil)
  have e: "endswith_chr t c \<longleftrightarrow> last t = c" for c
    unfolding endswith_chr_def by (subst rt) simp
  have s: "startswith_chr t c \<longleftrightarrow> hd t = c" for c using Cons by (simp add: startswith_chr_def)
  show ?thesis unfolding remove_quotes_def e s using Cons by auto
qed

lemma match_bare_export_line: "match_bare (''export '' @ x) = None"
  by (simp add: match_bare_def match_assignment_def match_name_eq_def isspace_def
      whitespace_chars_def ident_start_def ident_char_def)

lemma not_needs_quotes_no_quote:
  "\<not> needs_quotes v \<Longrightarrow> dquote \<notin> set v \<and> squote \<notin> set v"
  by (auto simp: needs_quotes_def special_chars_def)

lemma parse_format:
  assumes n: "is_identifier name"
  shows "parse_export_line (format_export_line name v) =
           (if newline \<in> set v then None
            else Some (name, if needs_quotes v then escape_dquotes v else strip v))"
proof -
  have sp: "\<forall>c\<in>set []. isspace c" "\<forall>c\<in>set '' ''. isspace c" "'' '' \<noteq> []" by simp_all
  have ex: "match_export (''export '' @ name @ CHR ''='' # r) =
              (case match_rest r of None \<Rightarrow> None | Some g \<Rightarrow> Some (name, g))" for r
    using match_export_decomp [OF sp(1) sp(2) sp(3) n, of r] by simp
  have bare: "match_bare (''export '' @ name @ CHR ''='' # r) = None" for r
    by (rule match_bare_export_line)
  show ?thesis
  proof (cases "needs_quotes v")
    case True
    let ?g = "dquote # escape_dquotes v @ [dquote]"
    have line: "format_export_line name v = ''export '' @ name @ CHR ''='' # (?g @ [newline])"
      using True by (simp add: format_export_line_def)
    show ?thesis
    proof (cases "newline \<in> set v")
      case nl: True
      then have "newline \<in> set ?g" by (simp add: newline_escape_dquotes)
      then have "match_rest (?g @ [newline]) = None" by (rule match_rest_interior)
      then show ?thesis using nl unfolding line parse_export_line_def ex bare by simp
    next
      case nl: False
      then have "newline \<notin> set ?g" by (simp add: newline_escape_dquotes)
      then have "match_rest (?g @ [newline]) = Some ?g" by (rule match_rest_terminated)
      then show ?thesis using nl True unfolding line parse_export_line_def ex
        by (simp add: strip_dquoted remove_quotes_dquoted)
    qed
  next
    case False
    have line: "format_export_line name v = ''export '' @ name @ CHR ''='' # (v @ [newline])"
      using False by (simp add: format_export_line_def)
    show ?thesis
    proof (cases "newline \<in> set v")
      case nl: True
      then have "match_rest (v @ [newline]) = None" by (rule match_rest_interior)
      then show ?thesis using nl unfolding line parse_export_line_def ex bare by simp
    next
      case nl: False
      then have m: "match_rest (v @ [newline]) = Some v" by (rule match_rest_terminated)
      have "dquote \<notin> set (strip v)" "squote \<notin> set (strip v)"
        using not_needs_quotes_no_quote [OF False] set_strip [of v] by auto
      then have "remove_quotes (strip v) = strip v" by (rule remove_quotes_unquoted)
      then show ?thesis using nl False m unfolding line parse_export_line_def ex by simp
    qed
  qed
qed

lemma match_rest_tail:
  assumes "newline \<notin> set v" "tail = [] \<or> tail = [newline]"
  shows "match_rest (v @ tail) = Some v"
  using assms match_rest_plain match_rest_terminated by auto

lemma parse_assignment_line:
  assumes ws1: "\<forall>c\<in>set ws1. isspace c" and name: "is_identifier n"
    and rest: "newline \<notin> set v" and tail: "tail = [] \<or> tail = [newline]"
    and form: "(line = ws1 @ ''export'' @ ws2 @ n @ ''='' @ v @ tail \<and> ws2 \<noteq> []
                 \<and> (\<forall>c\<in>set ws2. isspace c))
               \<or> line = ws1 @ n @ ''='' @ v @ tail"
  shows "parse_export_line line = Some (n, remove_quotes (strip v))"
proof -
  have m: "match_rest (v @ tail) = Some v" using rest tail by (rule match_rest_tail)
  from form show ?thesis
  proof
    assume a: "line = ws1 @ ''export'' @ ws2 @ n @ ''='' @ v @ tail \<and> ws2 \<noteq> []
                 \<and> (\<forall>c\<in>set ws2. isspace c)"
    then have "match_export line = Some (n, v)"
      using match_export_decomp [OF ws1 _ _ name, of ws2 "v @ tail"] m by simp
    then show ?thesis by (simp add: parse_export_line_def)
  next
    assume a: "line = ws1 @ n @ ''='' @ v @ tail"
    then have "match_export line = None" "match_bare line = Some (n, v)"
      using match_export_bare_form [OF ws1 name, of "v @ tail"]
        match_bare_decomp [OF ws1 name, of "v @ tail"] m by simp_all
    then show ?thesis by (simp add: parse_export_line_def)
  qed
qed

lemma match_assignment_SomeD:
  assumes "match_assignment s = Some (n, v)"
  shows "\<exists>tail. s = n @ ''='' @ v @ tail \<and> is_identifier n \<and> newline \<notin> set v
           \<and> (tail = [] \<or> tail = [newline])"
proof -
  from assms obtain r where 1: "match_name_eq s = Some (n, r)" and 2: "match_rest r = Some v"
    by (auto simp: match_assignment_def split: option.splits)
  from match_name_eq_SomeD [OF 1] have n: "is_identifier n" and s: "s = n @ CHR ''='' # r" by simp_all
  from match_rest_SomeD [OF 2] have v: "newline \<notin> set v" and r: "r = v \<or> r = v @ [newline]" by simp_all
  from r show ?thesis
  proof
    assume "r = v"
    with s n v show ?thesis by (intro exI [of _ "[]"]) simp
  next
    assume "r = v @ [newline]"
    with s n v show ?thesis by (intro exI [of _ "[newline]"]) simp
  qed
qed

lemma match_bare_iff:
  "match_bare line = Some (n, v) \<longleftrightarrow>
     (\<exists>ws1 tail. line = ws1 @ n @ ''='' @ v @ tail \<and> (\<forall>c\<in>set ws1. isspace c)
        \<and> is_identifier n \<and> newline \<notin> set v \<and> (tail = [] \<or> tail = [newline]))"
proof
  assume "match_bare line = Some (n, v)"
  then have "match_assignment (dropWhile isspace line) = Some (n, v)" by (simp add: match_bare_def)
  from match_assignment_SomeD [OF this] obtain tail where
    t: "dropWhile isspace line = n @ ''='' @ v @ tail" "is_identifier n" "newline \<notin> set v"
       "tail = [] \<or> tail = [newline]" by blast
  have "takeWhile isspace line @ dropWhile isspace line = line" by simp
  then have "line = takeWhile isspace line @ n @ ''='' @ v @ tail" unfolding t(1) by (rule sym)
  moreover have "\<forall>c\<in>set (takeWhile isspace line). isspace c" by (auto dest: set_takeWhileD)
  ultimately show "\<exists>ws1 tail. line = ws1 @ n @ ''='' @ v @ tail \<and> (\<forall>c\<in>set ws1. isspace c)
        \<and> is_identifier n \<and> newline \<notin> set v \<and> (tail = [] \<or> tail = [newline])"
    using t by blast
next
  assume "\<exists>ws1 tail. line = ws1 @ n @ ''='' @ v @ tail \<and> (\<forall>c\<in>set ws1. isspace c)
        \<and> is_identifier n \<and> newline \<notin> set v \<and> (tail = [] \<or> tail = [newline])"
  then obtain ws1 tail where a: "line = ws1 @ n @ ''='' @ v @ tail" "\<forall>c\<in>set ws1. isspace c"
    "is_identifier n" "newline \<notin> set v" "tail = [] \<or> tail = [newline]" by blast
  show "match_bare line = Some (n, v)"
    using match_bare_decomp [OF a(2) a(3), of "v @ tail"] match_rest_tail [OF a(4) a(5)] a(1)
    by simp
qed

lemma match_export_iff:
  "match_export line = Some (n, v) \<longleftrightarrow>
     (\<exists>ws1 ws2 tail. line = ws1 @ ''export'' @ ws2 @ n @ ''='' @ v @ tail
        \<and> (\<forall>c\<in>set ws1. isspace c) \<and> ws2 \<noteq> [] \<and> (\<forall>c\<in>set ws2. isspace c)
        \<and> is_identifier n \<and> newline \<notin> set v \<and> (tail = [] \<or> tail = [newline]))"
proof
  assume m: "match_export line = Some (n, v)"
  let ?s = "dropWhile isspace line"
  let ?t = "drop 6 ?s"
  from m have p: "take 6 ?s = ''export''" and t: "?t \<noteq> []" "isspace (hd ?t)"
    and a: "match_assignment (dropWhile isspace ?t) = Some (n, v)"
    by (auto simp: match_export_def Let_def split: if_splits)
  from match_assignment_SomeD [OF a] obtain tail where
    d: "dropWhile isspace ?t = n @ ''='' @ v @ tail" "is_identifier n" "newline \<notin> set v"
       "tail = [] \<or> tail = [newline]" by blast
  have "takeWhile isspace ?t @ dropWhile isspace ?t = ?t" by simp
  then have 1: "?t = takeWhile isspace ?t @ n @ ''='' @ v @ tail" unfolding d(1) by (rule sym)
  have "take 6 ?s @ ?t = ?s" by (rule append_take_drop_id)
  then have 2: "?s = ''export'' @ ?t" unfolding p by (rule sym)
  have "takeWhile isspace line @ ?s = line" by simp
  then have 3: "line = takeWhile isspace line @ ?s" by (rule sym)
  have "line = takeWhile isspace line @ ''export'' @ takeWhile isspace ?t @ n @ ''='' @ v @ tail"
    using 1 2 3 by metis
  moreover have "\<forall>c\<in>set (takeWhile isspace line). isspace c" by (auto dest: set_takeWhileD)
  moreover have "\<forall>c\<in>set (takeWhile isspace ?t). isspace c" by (auto dest: set_takeWhileD)
  moreover have "takeWhile isspace ?t \<noteq> []" using t by (cases ?t) auto
  ultimately show "\<exists>ws1 ws2 tail. line = ws1 @ ''export'' @ ws2 @ n @ ''='' @ v @ tail
        \<and> (\<forall>c\<in>set ws1. isspace c) \<and> ws2 \<noteq> [] \<and> (\<forall>c\<in>set ws2. isspace c)
        \<and> is_identifier n \<and> newline \<notin> set v \<and> (tail = [] \<or> tail = [newline])"
    using d by blast
next
  assume "\<exists>ws1 ws2 tail. line = ws1 @ ''export'' @ ws2 @ n @ ''='' @ v @ tail
        \<and> (\<forall>c\<in>set ws1. isspace c) \<and> ws2 \<noteq> [] \<and> (\<forall>c\<in>set ws2. isspace c)
        \<and> is_identifier n \<and> newline \<notin> set v \<and> (tail = [] \<or> tail = [newline])"
  then obtain ws1 ws2 tail where a: "line = ws1 @ ''export'' @ ws2 @ n @ ''='' @ v @ tail"
    "\<forall>c\<in>set ws1. isspace c" "ws2 \<noteq> []" "\<forall>c\<in>set ws2. isspace c"
    "is_identifier n" "newline \<notin> set v" "tail = [] \<or> tail = [newline]" by blast
  show "match_export line = Some (n, v)"
    using match_export_decomp [OF a(2) a(4) a(3) a(5), of "v @ tail"]
      match_rest_tail [OF a(6) a(7)] a(1) by simp
qed

lemma parse_name_identifier:
  "parse_export_line line = Some (n, v) \<Longrightarrow> is_identifier n"
  using match_export_iff match_bare_iff
  by (fastforce simp: parse_export_line_def split: option.splits)

text \<open>
  Claim C3 (parse/format round trip), amended. For every identifier \<open>name\<close>,
  \<^verbatim>\<open>parse_export_line(format_export_line(name, value))\<close> returns \<open>(name, value)\<close>
  exactly for the values that contain no line feed and that, when written quoted, contain
  no double quote and, when written bare, neither begin nor end with whitespace. For a
  value with a line feed the formatted text does not parse at all; a double quote comes
  back preceded by the backslash that the formatter added, since the parser only strips
  the surrounding quotes; whitespace at the ends of a bare value is stripped.
\<close>

theorem format_parse_roundtrip:
  assumes "is_identifier name"
  shows "parse_export_line (format_export_line name v) = Some (name, v) \<longleftrightarrow> roundtrip_safe v"
  unfolding parse_format [OF assms] roundtrip_safe_def
  by (simp add: escape_dquotes_fixed strip_fixed)

theorem format_parse_roundtrip_witness:
  "is_identifier ''FOO'' \<and> roundtrip_safe ''a b''
   \<and> parse_export_line (format_export_line ''FOO'' ''a b'') = Some (''FOO'', ''a b'')"
proof -
  have n: "is_identifier ''FOO''" by code_simp
  have s: "roundtrip_safe ''a b''" by code_simp
  show ?thesis using n s format_parse_roundtrip [OF n, of "''a b''"] by simp
qed

theorem roundtrip_counterexample:
  "is_identifier ''X''
   \<and> parse_export_line (format_export_line ''X'' [CHR ''a'', dquote, CHR ''b''])
       \<noteq> Some (''X'', [CHR ''a'', dquote, CHR ''b''])"
  by code_simp

text \<open>
  Claim C5 (parse value normalisation), amended. For every line of the form
  \<^verbatim>\<open>export NAME=REST\<close> or \<^verbatim>\<open>NAME=REST\<close> (optional leading whitespace, \<open>NAME\<close> an
  identifier, \<open>REST\<close> free of line feeds, an optional final line feed) the parser returns
  \<open>NAME\<close> with the value obtained from \<open>REST\<close> by removing its leading and its
  trailing whitespace and then one layer of quotes if and only if the remainder begins and
  ends with the same quote character. Leading whitespace of \<open>REST\<close> is not preserved: the
  source calls \<^verbatim>\<open>strip()\<close>, which trims both ends.
\<close>

theorem parse_value_normalization:
  assumes ws1: "\<forall>c\<in>set ws1. isspace c" and name: "is_identifier NAME"
    and rest: "newline \<notin> set REST" and tail: "tail = [] \<or> tail = [newline]"
    and form: "(line = ws1 @ ''export'' @ ws2 @ NAME @ ''='' @ REST @ tail \<and> ws2 \<noteq> []
                 \<and> (\<forall>c\<in>set ws2. isspace c))
               \<or> line = ws1 @ NAME @ ''='' @ REST @ tail"
  shows "\<exists>l t r. REST = l @ t @ r \<and> (\<forall>c\<in>set l. isspace c) \<and> (\<forall>c\<in>set r. isspace c)
           \<and> (t = [] \<or> (\<not> isspace (hd t) \<and> \<not> isspace (last t)))
           \<and> parse_export_line line =
               Some (NAME, if t \<noteq> [] \<and> hd t = last t \<and> (hd t = dquote \<or> hd t = squote)
                           then butlast (tl t) else t)"
proof -
  obtain l r where d: "REST = l @ strip REST @ r" "\<forall>c\<in>set l. isspace c" "\<forall>c\<in>set r. isspace c"
    using strip_decomp by blast
  have p: "parse_export_line line = Some (NAME, remove_quotes (strip REST))"
    using ws1 name rest tail form by (rule parse_assignment_line)
  show ?thesis
    apply (rule exI [of _ l], rule exI [of _ "strip REST"], rule exI [of _ r])
    using d strip_ends [of REST] p remove_quotes_explicit [of "strip REST"] by simp
qed

theorem parse_value_normalization_witness:
  "parse_export_line (''  export  X= '' @ [squote] @ ''a b'' @ [squote] @ ''  '' @ [newline])
     = Some (''X'', ''a b'')
   \<and> (\<exists>l t r. '' '' @ [squote] @ ''a b'' @ [squote] @ ''  '' = l @ t @ r
         \<and> (\<forall>c\<in>set l. isspace c) \<and> (\<forall>c\<in>set r. isspace c)
         \<and> (t = [] \<or> (\<not> isspace (hd t) \<and> \<not> isspace (last t)))
         \<and> parse_export_line (''  export  X= '' @ [squote] @ ''a b'' @ [squote] @ ''  '' @ [newline]) =
               Some (''X'', if t \<noteq> [] \<and> hd t = last t \<and> (hd t = dquote \<or> hd t = squote)
                           then butlast (tl t) else t))"
proof -
  have h1: "\<forall>c\<in>set ''  ''. isspace c" by simp
  have h2: "is_identifier ''X''" by code_simp
  have h3: "newline \<notin> set ('' '' @ [squote] @ ''a b'' @ [squote] @ ''  '')" by simp
  have h4: "[newline] = [] \<or> [newline] = [newline]" by simp
  have h5: "(''  export  X= '' @ [squote] @ ''a b'' @ [squote] @ ''  '' @ [newline]
               = ''  '' @ ''export'' @ ''  '' @ ''X'' @ ''='' @ ('' '' @ [squote] @ ''a b'' @ [squote] @ ''  '') @ [newline]
             \<and> ''  '' \<noteq> [] \<and> (\<forall>c\<in>set ''  ''. isspace c))
            \<or> ''  export  X= '' @ [squote] @ ''a b'' @ [squote] @ ''  '' @ [newline]
               = ''  '' @ ''X'' @ ''='' @ ('' '' @ [squote] @ ''a b'' @ [squote] @ ''  '') @ [newline]"
    by simp
  have e: "parse_export_line (''  export  X= '' @ [squote] @ ''a b'' @ [squote] @ ''  '' @ [newline])
     = Some (''X'', ''a b'')" by code_simp
  from parse_value_normalization [OF h1 h2 h3 h4 h5] e show ?thesis by blast
qed

theorem parse_value_counterexample:
  "parse_export_line ''export X= a'' = Some (''X'', ''a'')
   \<and> parse_export_line ''export X= a'' \<noteq> Some (''X'', spec_value '' a'')"
  by code_simp
section \<open>Dictionaries and the merge\<close>

lemma map_of_replace:
  "map_of (map (\<lambda>(k', v'). if k' = k then (k', v) else (k', v')) d) x =
     (if x = k then (if k \<in> fst ` set d then Some v else None) else map_of d x)"
  by (induction d) (auto simp: image_iff, force+)

lemma map_of_dict_set: "map_of (dict_set d k v) = (map_of d)(k \<mapsto> v)"
proof (cases "k \<in> fst ` set d")
  case False
  then have "map_of d k = None" by (simp add: map_of_eq_None_iff)
  then show ?thesis using False
    by (auto simp: dict_set_def map_add_def fun_eq_iff split: option.splits)
next
  case True
  then show ?thesis by (simp add: dict_set_def fun_eq_iff map_of_replace)
qed

lemma map_fst_replace:
  "map fst (map (\<lambda>(k', v'). if k' = k then (k', v) else (k', v')) d) = map fst d"
  by (induction d) auto

lemma map_fst_dict_set:
  "map fst (dict_set d k v) = (if k \<in> fst ` set d then map fst d else map fst d @ [k])"
  unfolding dict_set_def by (simp add: map_fst_replace del: map_map)

lemma distinct_dict_set: "distinct (map fst d) \<Longrightarrow> distinct (map fst (dict_set d k v))"
  by (simp add: map_fst_dict_set)


lemma map_of_dict_update_gen:
  "map_of (fold (\<lambda>(k, v) acc. dict_set acc k v) e d) = map_of d ++ map_of (rev e)"
proof (induction e arbitrary: d)
  case Nil
  then show ?case by simp
next
  case (Cons a e)
  obtain k v where a: "a = (k, v)" by (cases a)
  have "map_of (fold (\<lambda>(k, v) acc. dict_set acc k v) (a # e) d)
        = map_of (dict_set d k v) ++ map_of (rev e)"
    using Cons.IH [of "dict_set d k v"] by (simp add: a)
  also have "\<dots> = map_of d ++ map_of (rev (a # e))"
    by (auto simp: map_of_dict_set a fun_eq_iff map_add_def split: option.splits)
  finally show ?case .
qed

lemma map_of_dict_update: "map_of (dict_update d e) = map_of d ++ map_of (rev e)"
  by (simp add: dict_update_def map_of_dict_update_gen)

lemma map_of_rev_distinct: "distinct (map fst xs) \<Longrightarrow> map_of (rev xs) = map_of xs"
proof (induction xs)
  case Nil
  then show ?case by simp
next
  case (Cons x xs)
  obtain k v where x: "x = (k, v)" by (cases x)
  from Cons.prems have k: "k \<notin> fst ` set xs" and d: "distinct (map fst xs)" by (auto simp: x)
  then have none: "map_of xs k = None" by (simp add: map_of_eq_None_iff)
  have "map_of (rev (x # xs)) = map_of [x] ++ map_of (rev xs)" by (simp add: x)
  also have "\<dots> = map_of [x] ++ map_of xs" using Cons.IH [OF d] by simp
  also have "\<dots> = map_of (x # xs)"
    using none by (auto simp: x fun_eq_iff map_add_def split: option.splits)
  finally show ?case .
qed

lemma vars_fold_distinct:
  "distinct (map fst d) \<Longrightarrow>
   distinct (map fst (fold (\<lambda>line variables.
             case parse_export_line line of
               Some (name, v) \<Rightarrow> dict_set variables name v
             | None \<Rightarrow> variables) ls d))"
  by (induction ls arbitrary: d) (auto simp: distinct_dict_set split: option.splits)

lemma distinct_get_variables: "distinct (map fst (get_variables_from_file w f))"
  unfolding get_variables_from_file_def by (rule vars_fold_distinct) simp



lemma merge_step_lookup:
  "map_of (dict_update d (get_variables_from_file w f)) =
   map_of d ++ map_of (get_variables_from_file w f)"
  by (simp add: map_of_dict_update map_of_rev_distinct distinct_get_variables)

lemma merge_fold_snoc:
  "map_of (fold (\<lambda>config_file shell_vars.
             dict_update shell_vars (get_variables_from_file w config_file)) (fs @ [f]) d)
   = map_of (fold (\<lambda>config_file shell_vars.
             dict_update shell_vars (get_variables_from_file w config_file)) fs d)
     ++ map_of (get_variables_from_file w f)"
  by (simp add: merge_step_lookup)

lemma get_all_variables_single:
  "dict_get (get_all_variables cfg [sh] w) (shell_value sh) = Some (shell_variables cfg w sh)"
  by (simp add: get_all_variables_def dict_get_def map_of_dict_set)

section \<open>Removing a variable\<close>

text \<open>
  Claim C8 (remove no-op). When no existing configuration file of any target shell
  defines the name, \<^verbatim>\<open>remove_variable\<close> returns \<^verbatim>\<open>True\<close> and the world, every
  file included, is as before.
\<close>

theorem remove_variable_absent:
  assumes "\<forall>sh \<in> set shells. \<forall>f \<in> set (find_existing_config_files cfg sh w).
             \<not> dict_contains (get_variables_from_file w f) name"
  shows "remove_variable cfg name shells skip_confirmation response w = (True, w)"
proof -
  have "files_defining cfg name shells w = []"
    unfolding files_defining_def using assms by (auto simp: filter_empty_conv)
  then show ?thesis by (simp add: remove_variable_def)
qed

theorem remove_variable_absent_witness:
  "files_defining cfg_real ''Y'' [BASH, SH]
     (world_of [(''/h/.bashrc'', ''export X=1'' @ [newline])]) = []
   \<and> remove_variable cfg_real ''Y'' [BASH, SH] True []
        (world_of [(''/h/.bashrc'', ''export X=1'' @ [newline])])
      = (True, world_of [(''/h/.bashrc'', ''export X=1'' @ [newline])])"
proof -
  have h: "\<forall>sh \<in> set [BASH, SH]. \<forall>f \<in> set (find_existing_config_files cfg_real sh
        (world_of [(''/h/.bashrc'', ''export X=1'' @ [newline])])).
      \<not> dict_contains (get_variables_from_file
            (world_of [(''/h/.bashrc'', ''export X=1'' @ [newline])]) f) ''Y''"
    by code_simp
  have e: "files_defining cfg_real ''Y'' [BASH, SH]
     (world_of [(''/h/.bashrc'', ''export X=1'' @ [newline])]) = []"
    by code_simp
  show ?thesis using e remove_variable_absent [OF h] by simp
qed

section \<open>Backup and restore\<close>

text \<open>
  Claim C10 (dry-run restore). In dry-run mode \<^verbatim>\<open>restore_backup\<close> returns
  \<^verbatim>\<open>True\<close> for every backup id and leaves the world untouched: the archive is not
  looked up, no snapshot is taken, no file is written. The example has an empty backup
  directory, where the same call outside dry-run mode fails.
\<close>

theorem restore_dry_run:
  "dry_run cfg \<Longrightarrow> restore_backup cfg backup_id w = (True, w)"
  by (simp add: restore_backup_def)

theorem restore_dry_run_witness:
  "dry_run cfg_dry \<and> find_backup cfg_dry (world_of []) ''20240101'' = None
   \<and> restore_backup cfg_real ''20240101'' (world_of []) = (False, world_of [])
   \<and> restore_backup cfg_dry ''20240101'' (world_of []) = (True, world_of [])"
proof -
  have d: "dry_run cfg_dry" by (simp add: cfg_dry_def)
  have f: "find_backup cfg_dry (world_of []) ''20240101'' = None" by code_simp
  have r: "restore_backup cfg_real ''20240101'' (world_of []) = (False, world_of [])"
    by (simp add: restore_backup_def cfg_real_def find_backup_def archive_of_path_def world_of_def file_exists_def)
  show ?thesis using d f r restore_dry_run [OF d, of "''20240101''" "world_of []"] by simp
qed

lemma basename_join: "CHR ''/'' \<notin> set b \<Longrightarrow> basename (path_join a b) = b"
proof -
  assume b: "CHR ''/'' \<notin> set b"
  have "rev (path_join a b) = rev b @ CHR ''/'' # rev a" by (simp add: path_join_def)
  moreover have "takeWhile (\<lambda>c. c \<noteq> CHR ''/'') (rev b @ CHR ''/'' # rev a) = rev b"
    using b by (auto simp: takeWhile_tail)
  ultimately show ?thesis by (simp add: basename_def)
qed

lemma config_file_names:
  assumes "f \<in> set (config_files cfg sh)"
  shows "\<exists>b. f = path_join (home cfg) (CHR ''.'' # b) \<and> CHR ''/'' \<notin> set b"
  using assms by (cases sh) auto

lemma restore_target_config_file:
  assumes "f \<in> set (config_files cfg sh)"
  shows "restore_target cfg (basename f) \<noteq> f"
proof -
  from config_file_names [OF assms] obtain b where
    f: "f = path_join (home cfg) (CHR ''.'' # b)" and b: "CHR ''/'' \<notin> set b" by blast
  have "basename f = CHR ''.'' # b" unfolding f using b by (intro basename_join) simp
  then have "restore_target cfg (basename f) = path_join (home cfg) (CHR ''.'' # CHR ''.'' # b)"
    by (simp add: restore_target_def)
  moreover have "CHR ''.'' # b \<noteq> b" by simp
  ultimately show ?thesis unfolding f by (simp add: path_join_def)
qed

text \<open>
  Claim C2 (archive round trip). \<^verbatim>\<open>create_backup\<close> names each entry by the base name
  of the file, which for every managed configuration file already begins with a dot, and
  \<^verbatim>\<open>restore_backup\<close> prepends one more: the restore destination is never the original
  path. The run below backs up \<^verbatim>\<open>.bashrc\<close> and \<^verbatim>\<open>.profile\<close>, changes
  \<^verbatim>\<open>.bashrc\<close>, and restores: the call reports success, \<^verbatim>\<open>.bashrc\<close> keeps the
  changed content, and the archived bytes land in \<^verbatim>\<open>..bashrc\<close> and
  \<^verbatim>\<open>..profile\<close>. The listing does show the message and the timestamp.
\<close>

theorem restore_misplaces_files:
  "fst (create_backup cfg_real [''/h/.bashrc'', ''/h/.profile''] (Some ''msg'')
          (world_of [(''/h/.bashrc'', ''export X=1'' @ [newline]),
                     (''/h/.profile'', ''export Y=2'' @ [newline])]))
     = Some ''/h/.config/setvar/backups/backup_20240101_120000.zip''
   \<and> fst (restore_backup cfg_real ''/h/.config/setvar/backups/backup_20240101_120000.zip''
            (snd (update_variable_in_file cfg_real ''/h/.bashrc'' ''X'' ''9''
               (snd (create_backup cfg_real [''/h/.bashrc'', ''/h/.profile''] (Some ''msg'')
                  (world_of [(''/h/.bashrc'', ''export X=1'' @ [newline]),
                             (''/h/.profile'', ''export Y=2'' @ [newline])])))))) = True
   \<and> map (files (snd (restore_backup cfg_real
                         ''/h/.config/setvar/backups/backup_20240101_120000.zip''
            (snd (update_variable_in_file cfg_real ''/h/.bashrc'' ''X'' ''9''
               (snd (create_backup cfg_real [''/h/.bashrc'', ''/h/.profile''] (Some ''msg'')
                  (world_of [(''/h/.bashrc'', ''export X=1'' @ [newline]),
                             (''/h/.profile'', ''export Y=2'' @ [newline])]))))))))
        [''/h/.bashrc'', ''/h/..bashrc'', ''/h/.profile'', ''/h/..profile'']
     = [Some (''export X=9'' @ [newline]), Some (''export X=1'' @ [newline]),
        Some (''export Y=2'' @ [newline]), Some (''export Y=2'' @ [newline])]
   \<and> map (files (snd (restore_backup cfg_real
                         ''/h/.config/setvar/backups/backup_20240101_120000.zip''
               (snd (create_backup cfg_real [''/h/.bashrc'', ''/h/.profile''] (Some ''msg'')
                  (world_of [(''/h/.bashrc'', ''export X=1'' @ [newline]),
                             (''/h/.profile'', ''export Y=2'' @ [newline])]))))))
        [''/h/..bashrc'', ''/h/..profile'']
     = [Some (''export X=1'' @ [newline]), Some (''export Y=2'' @ [newline])]
   \<and> restore_target cfg_real (basename ''/h/.bashrc'') = ''/h/..bashrc''
   \<and> map (\<lambda>s. (bs_timestamp s, bs_message s))
        (list_backups cfg_real 10
               (snd (create_backup cfg_real [''/h/.bashrc'', ''/h/.profile''] (Some ''msg'')
                  (world_of [(''/h/.bashrc'', ''export X=1'' @ [newline]),
                             (''/h/.profile'', ''export Y=2'' @ [newline])]))))
     = [(''20240101_120000'', ''msg'')]"
  by code_simp

theorem restore_misplaces_files_witness:
  "restore_target cfg_real (basename ''/h/.bashrc'') = ''/h/..bashrc''
   \<and> restore_target cfg_real (basename ''/h/.bashrc'') \<noteq> ''/h/.bashrc''"
proof -
  from restore_misplaces_files
  have "restore_target cfg_real (basename ''/h/.bashrc'') = ''/h/..bashrc''" by blast
  then show ?thesis by simp
qed

section \<open>Reading and writing lines\<close>

lemma rev_last_butlast: "t \<noteq> [] \<Longrightarrow> rev t = last t # rev (butlast t)"
  by (induction t) auto

lemma endswith_chr_iff: "endswith_chr t c \<longleftrightarrow> t \<noteq> [] \<and> last t = c"
proof (cases t)
  case Nil then show ?thesis by (simp add: endswith_chr_def)
next
  case (Cons a u)
  then have "t \<noteq> []" by simp
  from rev_last_butlast [OF this] show ?thesis using Cons
    by (simp add: endswith_chr_def)
qed

lemma universal_newlines_no_cr: "carriage_return \<notin> set (universal_newlines s)"
  by (induction s rule: universal_newlines.induct) (auto split: list.splits)

lemma universal_newlines_id: "carriage_return \<notin> set s \<Longrightarrow> universal_newlines s = s"
  by (induction s rule: universal_newlines.induct) (auto split: list.splits)

lemma concat_split_lines: "concat (split_lines s) = s"
  by (induction s) (auto split: list.splits)

lemma split_lines_nonempty: "[] \<notin> set (split_lines s)"
  by (induction s) (auto split: list.splits)

lemma split_lines_eq_Nil: "split_lines s = [] \<longleftrightarrow> s = []"
  by (cases s) (auto split: list.splits)

lemma split_lines_single: "newline \<notin> set b \<Longrightarrow> b \<noteq> [] \<Longrightarrow> split_lines b = [b]"
proof (induction b)
  case Nil then show ?case by simp
next
  case (Cons c b)
  then show ?case by (cases b) (auto split: list.splits)
qed

lemma split_lines_terminated:
  "newline \<notin> set b \<Longrightarrow> split_lines (b @ newline # rest) = (b @ [newline]) # split_lines rest"
  by (induction b) auto

lemma split_lines_shape:
  "list_all (\<lambda>l. l \<noteq> [] \<and> newline \<notin> set (butlast l)) (split_lines s)
   \<and> list_all (\<lambda>l. endswith_chr l newline) (butlast (split_lines s))"
proof (induction s)
  case Nil then show ?case by simp
next
  case (Cons c s)
  show ?case
  proof (cases "c = newline")
    case True
    then show ?thesis using Cons by (simp add: endswith_chr_iff)
  next
    case False
    show ?thesis
    proof (cases "split_lines s")
      case Nil
      then show ?thesis using False by simp
    next
      case (Cons l ls)
      with Cons.IH have l: "l \<noteq> []" "newline \<notin> set (butlast l)" by simp_all
      then have "newline \<notin> set (butlast (c # l))" using False by simp
      moreover have "ls \<noteq> [] \<Longrightarrow> endswith_chr (c # l) newline"
        using Cons.IH Cons l by (simp add: endswith_chr_iff)
      ultimately show ?thesis using Cons.IH Cons False by (auto simp: endswith_chr_iff)
    qed
  qed
qed

lemma lines_ok_readlines: "lines_ok (readlines c)"
proof -
  let ?s = "universal_newlines c"
  have "set l \<subseteq> set ?s" if "l \<in> set (split_lines ?s)" for l
    using that concat_split_lines [of ?s] by (metis UN_I set_concat subsetI)
  then have cr: "carriage_return \<notin> set l" if "l \<in> set (split_lines ?s)" for l
    using that universal_newlines_no_cr [of c] by blast
  show ?thesis
    unfolding lines_ok_def readlines_def proper_line_def
    using split_lines_shape [of ?s] cr by (auto simp: list_all_iff)
qed

lemma split_lines_concat:
  assumes "list_all (\<lambda>l. l \<noteq> [] \<and> newline \<notin> set (butlast l)) ls"
    and "list_all (\<lambda>l. endswith_chr l newline) (butlast ls)"
  shows "split_lines (concat ls) = ls"
  using assms
proof (induction ls)
  case Nil then show ?case by simp
next
  case (Cons l ls)
  show ?case
  proof (cases "ls = []")
    case True
    from Cons.prems(1) have l: "l \<noteq> []" "newline \<notin> set (butlast l)" by simp_all
    show ?thesis
    proof (cases "last l = newline")
      case True
      then obtain b where lb: "l = b @ [newline]" and b: "newline \<notin> set b"
        using l by (metis append_butlast_last_id butlast_snoc)
      have "split_lines (b @ [newline]) = [b @ [newline]]"
        using split_lines_terminated [OF b, of "[]"] by simp
      then show ?thesis using \<open>ls = []\<close> by (simp add: lb)
    next
      case False
      then have "newline \<notin> set l" using l by (metis append_butlast_last_id rotate1.simps(2) set_ConsD set_rotate1)
      then show ?thesis using \<open>ls = []\<close> l split_lines_single by simp
    qed
  next
    case False
    with Cons.prems have l: "l \<noteq> []" "newline \<notin> set (butlast l)" "last l = newline"
      and rest: "list_all (\<lambda>l. l \<noteq> [] \<and> newline \<notin> set (butlast l)) ls"
                "list_all (\<lambda>l. endswith_chr l newline) (butlast ls)"
      by (simp_all add: endswith_chr_iff)
    obtain b where lb: "l = b @ [newline]" and b: "newline \<notin> set b"
      using l by (metis append_butlast_last_id butlast_snoc)
    have "split_lines (concat (l # ls)) = (b @ [newline]) # split_lines (concat ls)"
      using split_lines_terminated [OF b, of "concat ls"] by (simp add: lb)
    then show ?thesis using Cons.IH [OF rest] by (simp add: lb)
  qed
qed

lemma readlines_concat: "lines_ok ls \<Longrightarrow> readlines (concat ls) = ls"
proof -
  assume a: "lines_ok ls"
  then have "carriage_return \<notin> set (concat ls)"
    by (auto simp: lines_ok_def proper_line_def list_all_iff)
  then have "universal_newlines (concat ls) = concat ls" by (rule universal_newlines_id)
  moreover have "split_lines (concat ls) = ls"
    using a by (intro split_lines_concat) (auto simp: lines_ok_def proper_line_def list_all_iff)
  ultimately show ?thesis by (simp add: readlines_def)
qed

section \<open>Rewriting a file\<close>

lemma last_not_newline_decomp:
  assumes "line @ [newline] = pre @ v @ tail" "newline \<notin> set v" "tail = [] \<or> tail = [newline]"
    and "pre \<noteq> []" "last pre \<noteq> newline"
  shows "tail = [newline] \<and> line = pre @ v"
proof (cases "tail = []")
  case True
  with assms(1) have e: "line @ [newline] = pre @ v" by simp
  have l: "last (pre @ v) = newline"
    using arg_cong [OF e, of last] by simp
  show ?thesis
  proof (cases "v = []")
    case True
    with l assms(5) show ?thesis by simp
  next
    case False
    with l have "last v = newline" by simp
    moreover have "last v \<in> set v" using False by (rule last_in_set)
    ultimately show ?thesis using assms(2) by simp
  qed
next
  case False
  with assms(3) have t: "tail = [newline]" by simp
  with assms(1) have "line @ [newline] = (pre @ v) @ [newline]" by simp
  then have "line = pre @ v" by (simp only: append_same_eq)
  with t show ?thesis by simp
qed

lemma match_export_newline_suffix:
  assumes "newline \<notin> set line"
  shows "match_export (line @ [newline]) = Some (n, v) \<longleftrightarrow> match_export line = Some (n, v)"
proof
  assume "match_export (line @ [newline]) = Some (n, v)"
  then obtain ws1 ws2 tail where a:
    "line @ [newline] = ws1 @ ''export'' @ ws2 @ n @ ''='' @ v @ tail"
    "\<forall>c\<in>set ws1. isspace c" "ws2 \<noteq> []" "\<forall>c\<in>set ws2. isspace c"
    "is_identifier n" "newline \<notin> set v" "tail = [] \<or> tail = [newline]"
    unfolding match_export_iff by blast
  let ?pre = "ws1 @ ''export'' @ ws2 @ n @ ''=''"
  have "line @ [newline] = ?pre @ v @ tail" using a(1) by simp
  from last_not_newline_decomp [OF this a(6) a(7)]
  have "tail = [newline] \<and> line = ?pre @ v" by simp
  then have l: "line = ws1 @ ''export'' @ ws2 @ n @ CHR ''='' # v" by simp
  show "match_export line = Some (n, v)"
    unfolding l using match_export_decomp [OF a(2) a(4) a(3) a(5), of v] match_rest_plain [OF a(6)]
    by simp
next
  assume "match_export line = Some (n, v)"
  then obtain ws1 ws2 tail where a:
    "line = ws1 @ ''export'' @ ws2 @ n @ ''='' @ v @ tail"
    "\<forall>c\<in>set ws1. isspace c" "ws2 \<noteq> []" "\<forall>c\<in>set ws2. isspace c"
    "is_identifier n" "newline \<notin> set v" "tail = [] \<or> tail = [newline]"
    unfolding match_export_iff by blast
  have "tail \<noteq> [newline]"
  proof
    assume "tail = [newline]"
    with a(1) have "newline \<in> set line" by simp
    with assms show False by simp
  qed
  with a(7) have "tail = []" by simp
  with a(1) have l: "line @ [newline] = ws1 @ ''export'' @ ws2 @ n @ CHR ''='' # (v @ [newline])"
    by simp
  show "match_export (line @ [newline]) = Some (n, v)"
    unfolding l using match_export_decomp [OF a(2) a(4) a(3) a(5), of "v @ [newline]"]
      match_rest_terminated [OF a(6)] by simp
qed

lemma match_bare_newline_suffix:
  assumes "newline \<notin> set line"
  shows "match_bare (line @ [newline]) = Some (n, v) \<longleftrightarrow> match_bare line = Some (n, v)"
proof
  assume "match_bare (line @ [newline]) = Some (n, v)"
  then obtain ws1 tail where a:
    "line @ [newline] = ws1 @ n @ ''='' @ v @ tail"
    "\<forall>c\<in>set ws1. isspace c"
    "is_identifier n" "newline \<notin> set v" "tail = [] \<or> tail = [newline]"
    unfolding match_bare_iff by blast
  let ?pre = "ws1 @ n @ ''=''"
  have "line @ [newline] = ?pre @ v @ tail" using a(1) by simp
  from last_not_newline_decomp [OF this a(4) a(5)]
  have "tail = [newline] \<and> line = ?pre @ v" by simp
  then have l: "line = ws1 @ n @ CHR ''='' # v" by simp
  show "match_bare line = Some (n, v)"
    unfolding l using match_bare_decomp [OF a(2) a(3), of v] match_rest_plain [OF a(4)]
    by simp
next
  assume "match_bare line = Some (n, v)"
  then obtain ws1 tail where a:
    "line = ws1 @ n @ ''='' @ v @ tail"
    "\<forall>c\<in>set ws1. isspace c"
    "is_identifier n" "newline \<notin> set v" "tail = [] \<or> tail = [newline]"
    unfolding match_bare_iff by blast
  have "tail \<noteq> [newline]"
  proof
    assume "tail = [newline]"
    with a(1) have "newline \<in> set line" by simp
    with assms show False by simp
  qed
  with a(5) have "tail = []" by simp
  with a(1) have l: "line @ [newline] = ws1 @ n @ CHR ''='' # (v @ [newline])" by simp
  show "match_bare (line @ [newline]) = Some (n, v)"
    unfolding l using match_bare_decomp [OF a(2) a(3), of "v @ [newline]"]
      match_rest_terminated [OF a(4)] by simp
qed

lemma option_eqI: "(\<And>x. a = Some x \<longleftrightarrow> b = Some x) \<Longrightarrow> a = b"
  by (cases a; cases b) auto

lemma parse_newline_suffix:
  assumes "newline \<notin> set line"
  shows "parse_export_line (line @ [newline]) = parse_export_line line"
proof -
  have e: "match_export (line @ [newline]) = match_export line"
    by (rule option_eqI) (use match_export_newline_suffix [OF assms] in auto)
  have b: "match_bare (line @ [newline]) = match_bare line"
    by (rule option_eqI) (use match_bare_newline_suffix [OF assms] in auto)
  show ?thesis unfolding parse_export_line_def e b by (rule refl)
qed

lemma assigns_newline_suffix:
  "newline \<notin> set line \<Longrightarrow> assigns name (line @ [newline]) \<longleftrightarrow> assigns name line"
  by (simp add: assigns_def parse_newline_suffix)

lemma update_loop_gen:
  "fold (\<lambda>line (new_lines, variable_updated).
             if assigns name line then (new_lines @ [fmt], True)
             else (new_lines @ [line], variable_updated)) lines (acc, b)
   = (acc @ replace_assignments name fmt lines, b \<or> (\<exists>l\<in>set lines. assigns name l))"
  by (induction lines arbitrary: acc b) (auto simp: replace_assignments_def)

lemma update_loop_eq:
  "update_loop name fmt lines =
     (replace_assignments name fmt lines, \<exists>l\<in>set lines. assigns name l)"
  unfolding update_loop_def using update_loop_gen [of name fmt lines "[]" False] by simp

lemma replace_unmatched:
  "\<not> (\<exists>l\<in>set lines. assigns name l) \<Longrightarrow> replace_assignments name fmt lines = lines"
  by (simp add: replace_assignments_def map_idI)

lemma length_replace [simp]:
  "length (replace_assignments name fmt lines) = length lines"
  by (simp add: replace_assignments_def)

lemma updated_lines_matched:
  "\<exists>l\<in>set lines. assigns name l \<Longrightarrow>
   updated_lines name v lines = replace_assignments name (format_export_line name v) lines"
  by (simp add: updated_lines_def update_loop_eq)

lemma updated_lines_unmatched:
  "\<not> (\<exists>l\<in>set lines. assigns name l) \<Longrightarrow>
   updated_lines name v lines =
     (if lines \<noteq> [] \<and> \<not> endswith_chr (last lines) newline then lines @ [[newline]] else lines)
     @ [format_export_line name v]"
  by (simp add: updated_lines_def update_loop_eq replace_unmatched)

lemma updated_lines_split:
  "\<exists>extra. updated_lines name v lines =
      replace_assignments name (format_export_line name v) lines @ extra
    \<and> ((\<exists>l\<in>set lines. assigns name l) \<longrightarrow> extra = [])"
proof (cases "\<exists>l\<in>set lines. assigns name l")
  case True
  then show ?thesis using updated_lines_matched by auto
next
  case False
  let ?extra = "(if lines \<noteq> [] \<and> \<not> endswith_chr (last lines) newline then [[newline]] else [])
     @ [format_export_line name v]"
  have "updated_lines name v lines =
      replace_assignments name (format_export_line name v) lines @ ?extra"
    unfolding updated_lines_unmatched [OF False] replace_unmatched [OF False] by simp
  with False show ?thesis by blast
qed

lemma identifier_no_break:
  assumes "is_identifier n"
  shows "newline \<notin> set n" "carriage_return \<notin> set n"
proof -
  have nl: "\<not> ident_char newline" and cr: "\<not> ident_char carriage_return"
    by (simp_all add: ident_char_def ident_start_def)
  from assms have all: "\<forall>c\<in>set n. ident_char c" by (simp add: is_identifier_def list_all_iff)
  show "newline \<notin> set n" using all nl by blast
  show "carriage_return \<notin> set n" using all cr by blast
qed

lemma set_escape_dquotes: "set (escape_dquotes v) \<subseteq> insert backslash (set v)"
  unfolding escape_dquotes_def by (induction v) auto

lemma formatted_line_proper:
  assumes n: "is_identifier name" and v: "newline \<notin> set v" "carriage_return \<notin> set v"
  shows "proper_line (format_export_line name v)"
    and "endswith_chr (format_export_line name v) newline"
proof -
  let ?g = "if needs_quotes v then [dquote] @ escape_dquotes v @ [dquote] else v"
  have f: "format_export_line name v = (''export '' @ name @ ''='' @ ?g) @ [newline]"
    by (simp add: format_export_line_def)
  have g: "newline \<notin> set ?g" "carriage_return \<notin> set ?g"
    using v set_escape_dquotes [of v] by auto
  have "newline \<notin> set (''export '' @ name @ ''='' @ ?g)"
    "carriage_return \<notin> set (''export '' @ name @ ''='' @ ?g)"
    using g identifier_no_break [OF n] by auto
  then show "proper_line (format_export_line name v)"
    unfolding f proper_line_def by (simp only: butlast_snoc) auto
  show "endswith_chr (format_export_line name v) newline"
    unfolding f endswith_chr_iff by simp
qed

lemma formatted_line_assigns:
  assumes "is_identifier name" "newline \<notin> set v"
  shows "assigns name (format_export_line name v)"
  using assms by (simp add: assigns_def parse_format)

lemma assigns_identifier: "assigns name line \<Longrightarrow> is_identifier name"
  by (auto simp: assigns_def split: option.splits dest: parse_name_identifier)

lemma lines_ok_Nil [simp]: "lines_ok []"
  by (simp add: lines_ok_def)

lemma lines_ok_read: "lines_ok (read_config_file w f)"
  by (simp add: read_config_file_def lines_ok_readlines split: option.splits)

lemma lines_ok_replace:
  assumes "lines_ok ls" "proper_line fmt" "endswith_chr fmt newline"
  shows "lines_ok (replace_assignments name fmt ls)"
proof -
  have b: "butlast (replace_assignments name fmt ls) = replace_assignments name fmt (butlast ls)"
    by (simp add: replace_assignments_def map_butlast)
  show ?thesis
    unfolding lines_ok_def b using assms
    by (auto simp: lines_ok_def replace_assignments_def list_all_iff)
qed

lemma replace_idem:
  "assigns name fmt \<Longrightarrow>
   replace_assignments name fmt (replace_assignments name fmt ls) = replace_assignments name fmt ls"
  by (simp add: replace_assignments_def)

lemma replace_matched:
  "\<exists>l\<in>set ls. assigns name l \<Longrightarrow> assigns name fmt \<Longrightarrow>
   \<exists>l\<in>set (replace_assignments name fmt ls). assigns name l"
  by (auto simp: replace_assignments_def)

text \<open>The lines of a file after the missing final line feed has been supplied.\<close>

lemma proper_unterminated:
  assumes "proper_line l" "\<not> endswith_chr l newline"
  shows "newline \<notin> set l"
proof -
  from assms have ne: "l \<noteq> []" and b: "newline \<notin> set (butlast l)" and la: "last l \<noteq> newline"
    by (auto simp: proper_line_def endswith_chr_iff)
  have "set l = insert (last l) (set (butlast l))"
    using ne by (metis append_butlast_last_id list.simps(15) rotate1.simps(2) set_rotate1)
  with b la show ?thesis by auto
qed

lemma lines_ok_snoc:
  assumes "list_all proper_line ls" "list_all (\<lambda>l. endswith_chr l newline) ls" "proper_line l"
  shows "lines_ok (ls @ [l])"
  using assms by (simp add: lines_ok_def)

lemma lines_ok_butlast:
  "lines_ok ls \<Longrightarrow> list_all proper_line (butlast ls) \<and> list_all (\<lambda>l. endswith_chr l newline) (butlast ls)"
  by (auto simp: lines_ok_def list_all_iff dest: in_set_butlastD)

lemma update_fixpoint:
  assumes n: "is_identifier name" and v: "newline \<notin> set v" "carriage_return \<notin> set v"
    and ok: "lines_ok ls"
  shows "concat (updated_lines name v (readlines (concat (updated_lines name v ls))))
         = concat (updated_lines name v ls)"
proof -
  let ?fmt = "format_export_line name v"
  have fp: "proper_line ?fmt" and ft: "endswith_chr ?fmt newline"
    using formatted_line_proper [OF n v] by simp_all
  have fa: "assigns name ?fmt" using formatted_line_assigns [OF n v(1)] .
  show ?thesis
  proof (cases "\<exists>l\<in>set ls. assigns name l")
    case True
    let ?N = "replace_assignments name ?fmt ls"
    have N: "updated_lines name v ls = ?N" using True by (rule updated_lines_matched)
    have "lines_ok ?N" using ok fp ft by (rule lines_ok_replace)
    then have r: "readlines (concat ?N) = ?N" by (rule readlines_concat)
    have "updated_lines name v ?N = replace_assignments name ?fmt ?N"
      using replace_matched [OF True fa] by (rule updated_lines_matched)
    then show ?thesis unfolding N r by (simp add: replace_idem [OF fa])
  next
    case False
    show ?thesis
    proof (cases "ls \<noteq> [] \<and> \<not> endswith_chr (last ls) newline")
      case miss: True
      let ?l = "last ls"
      let ?L = "butlast ls @ [?l @ [newline]]"
      have N: "updated_lines name v ls = (ls @ [[newline]]) @ [?fmt]"
        using updated_lines_unmatched [OF False, of v] miss by simp
      have ls: "ls = butlast ls @ [?l]" using miss by simp
      have pl: "proper_line ?l" using ok miss by (simp add: lines_ok_def list_all_iff)
      have nl: "newline \<notin> set ?l" using pl miss by (intro proper_unterminated) simp_all
      have pl': "proper_line (?l @ [newline])"
        using pl nl by (simp add: proper_line_def)
      have c: "concat ((ls @ [[newline]]) @ [?fmt]) = concat (?L @ [?fmt])"
        by (subst ls) simp
      have "list_all proper_line ?L" "list_all (\<lambda>l. endswith_chr l newline) ?L"
        using lines_ok_butlast [OF ok] pl' by (simp_all add: endswith_chr_iff)
      then have "lines_ok (?L @ [?fmt])" using fp by (rule lines_ok_snoc)
      then have r: "readlines (concat (?L @ [?fmt])) = ?L @ [?fmt]" by (rule readlines_concat)
      have none: "\<not> assigns name l" if "l \<in> set ?L" for l
      proof (cases "l \<in> set (butlast ls)")
        case True
        then have "l \<in> set ls" by (rule in_set_butlastD)
        with False show ?thesis by blast
      next
        case F: False
        with that have "l = ?l @ [newline]" by simp
        moreover have "\<not> assigns name ?l" using False miss by auto
        ultimately show ?thesis using assigns_newline_suffix [OF nl] by simp
      qed
      have m: "\<exists>l\<in>set (?L @ [?fmt]). assigns name l" using fa by simp
      have "replace_assignments name ?fmt (?L @ [?fmt]) = ?L @ [?fmt]"
        using none fa by (simp add: replace_assignments_def map_idI)
      then have "updated_lines name v (?L @ [?fmt]) = ?L @ [?fmt]"
        using updated_lines_matched [OF m, of v] by simp
      then show ?thesis unfolding N c r by simp
    next
      case nofix: False
      have N: "updated_lines name v ls = ls @ [?fmt]"
        using updated_lines_unmatched [OF False, of v] nofix by simp
      have "list_all proper_line ls" using ok by (simp add: lines_ok_def)
      moreover have "list_all (\<lambda>l. endswith_chr l newline) ls"
      proof (cases "ls = []")
        case True then show ?thesis by simp
      next
        case F: False
        then have "ls = butlast ls @ [last ls]" by simp
        then have "set ls = insert (last ls) (set (butlast ls))"
          by (metis list.simps(15) rotate1.simps(2) set_rotate1)
        then show ?thesis using lines_ok_butlast [OF ok] nofix F by (auto simp: list_all_iff)
      qed
      ultimately have "lines_ok (ls @ [?fmt])" using fp by (rule lines_ok_snoc)
      then have r: "readlines (concat (ls @ [?fmt])) = ls @ [?fmt]" by (rule readlines_concat)
      have m: "\<exists>l\<in>set (ls @ [?fmt]). assigns name l" using fa by simp
      have "replace_assignments name ?fmt (ls @ [?fmt]) = ls @ [?fmt]"
        using False fa by (simp add: replace_assignments_def map_idI)
      then have "updated_lines name v (ls @ [?fmt]) = ls @ [?fmt]"
        using updated_lines_matched [OF m, of v] by simp
      then show ?thesis unfolding N r by simp
    qed
  qed
qed

lemma update_variable_in_file_real:
  assumes "\<not> dry_run cfg" "\<not> (file_exists w f \<and> f \<in> readonly w)"
  shows "update_variable_in_file cfg f name v w =
           (True, w\<lparr>files := (files w)(f \<mapsto> concat (updated_lines name v (read_config_file w f))),
                    readonly := readonly w - {f}\<rparr>)"
  using assms by (simp add: update_variable_in_file_def write_config_file_def write_file_def)

lemma update_variable_in_file_denied:
  assumes "\<not> dry_run cfg" "file_exists w f \<and> f \<in> readonly w"
  shows "update_variable_in_file cfg f name v w = (False, w)"
  using assms by (simp add: update_variable_in_file_def write_config_file_def write_file_def)

text \<open>
  Claim C6 (duplicate rewrite with frame preservation), amended. Outside dry-run mode and
  on a writable file, \<^verbatim>\<open>update_variable_in_file\<close> succeeds and writes the lines it
  read (in text mode, so with \<^verbatim>\<open>\r\n\<close> and \<^verbatim>\<open>\r\<close> already read as line feeds),
  each line that assigns the name replaced by the one formatted line and every other line
  unchanged at its position, followed by what the append branch adds; when at least one
  line matched nothing is added, and when moreover the value contains neither a line feed
  nor a carriage return, reading the file again returns exactly that list, so the line
  count is unchanged. A value with a line break makes every formatted line span two lines
  of the file.
\<close>

theorem update_rewrites_assignments:
  assumes real: "\<not> dry_run cfg" and writable: "filepath \<notin> readonly w"
  shows "\<exists>w' extra.
           update_variable_in_file cfg filepath name v w = (True, w')
           \<and> files w' = (files w)(filepath \<mapsto>
                 concat (replace_assignments name (format_export_line name v)
                           (read_config_file w filepath) @ extra))
           \<and> ((\<exists>line \<in> set (read_config_file w filepath). assigns name line) \<longrightarrow>
                 extra = []
                 \<and> (newline \<notin> set v \<and> carriage_return \<notin> set v \<longrightarrow>
                      read_config_file w' filepath =
                        replace_assignments name (format_export_line name v)
                          (read_config_file w filepath)))"
proof -
  let ?L = "read_config_file w filepath"
  let ?fmt = "format_export_line name v"
  let ?N = "updated_lines name v ?L"
  let ?w' = "w\<lparr>files := (files w)(filepath \<mapsto> concat ?N), readonly := readonly w - {filepath}\<rparr>"
  obtain extra where ex: "?N = replace_assignments name ?fmt ?L @ extra"
    and em: "(\<exists>l\<in>set ?L. assigns name l) \<longrightarrow> extra = []"
    using updated_lines_split by blast
  have u: "update_variable_in_file cfg filepath name v w = (True, ?w')"
    using real writable by (intro update_variable_in_file_real) simp_all
  have f: "files ?w' = (files w)(filepath \<mapsto> concat (replace_assignments name ?fmt ?L @ extra))"
    using ex by simp
  have r: "read_config_file ?w' filepath = replace_assignments name ?fmt ?L"
    if m: "\<exists>l\<in>set ?L. assigns name l" and v: "newline \<notin> set v" "carriage_return \<notin> set v"
  proof -
    from m have n: "is_identifier name" by (auto dest: assigns_identifier)
    have N: "?N = replace_assignments name ?fmt ?L" using m by (rule updated_lines_matched)
    have "lines_ok (replace_assignments name ?fmt ?L)"
      using lines_ok_read formatted_line_proper [OF n v] by (rule lines_ok_replace)
    then have rc: "readlines (concat (replace_assignments name ?fmt ?L)) = replace_assignments name ?fmt ?L"
      by (rule readlines_concat)
    have "read_config_file ?w' filepath = readlines (concat ?N)"
      by (simp add: read_config_file_def)
    then show ?thesis unfolding N rc .
  qed
  show ?thesis
    apply (rule exI [of _ ?w'], rule exI [of _ extra])
    using u f em r by blast
qed

theorem update_rewrites_assignments_witness:
  "read_config_file (world_of [(''/h/.bashrc'',
        ''export X=1'' @ [newline] @ ''# note'' @ [newline] @ ''X=2'' @ [newline])]) ''/h/.bashrc''
     = [''export X=1'' @ [newline], ''# note'' @ [newline], ''X=2'' @ [newline]]
   \<and> read_config_file (snd (update_variable_in_file cfg_real ''/h/.bashrc'' ''X'' ''3''
        (world_of [(''/h/.bashrc'',
           ''export X=1'' @ [newline] @ ''# note'' @ [newline] @ ''X=2'' @ [newline])])))
        ''/h/.bashrc''
     = [''export X=3'' @ [newline], ''# note'' @ [newline], ''export X=3'' @ [newline]]
   \<and> (\<exists>w' extra.
         update_variable_in_file cfg_real ''/h/.bashrc'' ''X'' ''3''
           (world_of [(''/h/.bashrc'',
              ''export X=1'' @ [newline] @ ''# note'' @ [newline] @ ''X=2'' @ [newline])])
           = (True, w')
         \<and> files w' = (files (world_of [(''/h/.bashrc'',
              ''export X=1'' @ [newline] @ ''# note'' @ [newline] @ ''X=2'' @ [newline])]))
             (''/h/.bashrc'' \<mapsto>
                 concat (replace_assignments ''X'' (format_export_line ''X'' ''3'')
                           (read_config_file (world_of [(''/h/.bashrc'',
              ''export X=1'' @ [newline] @ ''# note'' @ [newline] @ ''X=2'' @ [newline])]) ''/h/.bashrc'') @ extra))
         \<and> ((\<exists>line \<in> set (read_config_file (world_of [(''/h/.bashrc'',
              ''export X=1'' @ [newline] @ ''# note'' @ [newline] @ ''X=2'' @ [newline])]) ''/h/.bashrc''). assigns ''X'' line) \<longrightarrow>
                 extra = []
                 \<and> (newline \<notin> set ''3'' \<and> carriage_return \<notin> set ''3'' \<longrightarrow>
                      read_config_file w' ''/h/.bashrc'' =
                        replace_assignments ''X'' (format_export_line ''X'' ''3'')
                          (read_config_file (world_of [(''/h/.bashrc'',
              ''export X=1'' @ [newline] @ ''# note'' @ [newline] @ ''X=2'' @ [newline])]) ''/h/.bashrc''))))"
proof -
  have h1: "\<not> dry_run cfg_real" by (simp add: cfg_real_def)
  have h2: "''/h/.bashrc'' \<notin> readonly (world_of [(''/h/.bashrc'',
        ''export X=1'' @ [newline] @ ''# note'' @ [newline] @ ''X=2'' @ [newline])])"
    by (simp add: world_of_def)
  have e1: "read_config_file (world_of [(''/h/.bashrc'',
        ''export X=1'' @ [newline] @ ''# note'' @ [newline] @ ''X=2'' @ [newline])]) ''/h/.bashrc''
     = [''export X=1'' @ [newline], ''# note'' @ [newline], ''X=2'' @ [newline]]"
    by code_simp
  have e2: "read_config_file (snd (update_variable_in_file cfg_real ''/h/.bashrc'' ''X'' ''3''
        (world_of [(''/h/.bashrc'',
           ''export X=1'' @ [newline] @ ''# note'' @ [newline] @ ''X=2'' @ [newline])])))
        ''/h/.bashrc''
     = [''export X=3'' @ [newline], ''# note'' @ [newline], ''export X=3'' @ [newline]]"
    by code_simp
  from update_rewrites_assignments [OF h1 h2, of "''X''" "''3''"] e1 e2 show ?thesis by blast
qed

text \<open>The line count of a one-line file grows when the new value holds a line feed.\<close>

theorem update_line_count_counterexample:
  "(\<exists>line \<in> set (read_config_file (world_of [(''/h/.bashrc'', ''export X=1'' @ [newline])])
                     ''/h/.bashrc''). assigns ''X'' line)
   \<and> length (read_config_file (world_of [(''/h/.bashrc'', ''export X=1'' @ [newline])])
               ''/h/.bashrc'') = 1
   \<and> length (read_config_file
               (snd (update_variable_in_file cfg_real ''/h/.bashrc'' ''X'' (''a'' @ [newline] @ ''b'')
                       (world_of [(''/h/.bashrc'', ''export X=1'' @ [newline])])))
               ''/h/.bashrc'') = 2"
  by code_simp

text \<open>
  Claim C7 (idempotence of update), amended. For every identifier name and every value
  without line feed and carriage return, a second call of \<^verbatim>\<open>update_variable_in_file\<close>
  with the same arguments returns the same result and leaves the world as the first call
  left it, in every branch: dry run, refused write, rewrite of matching lines, append,
  append after supplying the missing final line feed.
\<close>

theorem update_idempotent:
  assumes n: "is_identifier name" and v: "newline \<notin> set v" "carriage_return \<notin> set v"
  shows "update_variable_in_file cfg filepath name v
           (snd (update_variable_in_file cfg filepath name v w))
         = update_variable_in_file cfg filepath name v w"
proof (cases "dry_run cfg")
  case True
  then show ?thesis by (simp add: update_variable_in_file_def)
next
  case real: False
  show ?thesis
  proof (cases "file_exists w filepath \<and> filepath \<in> readonly w")
    case True
    then show ?thesis using update_variable_in_file_denied [OF real True] by simp
  next
    case False
    let ?N = "updated_lines name v (read_config_file w filepath)"
    let ?w1 = "w\<lparr>files := (files w)(filepath \<mapsto> concat ?N), readonly := readonly w - {filepath}\<rparr>"
    have 1: "update_variable_in_file cfg filepath name v w = (True, ?w1)"
      using real False by (rule update_variable_in_file_real)
    have w1: "\<not> (file_exists ?w1 filepath \<and> filepath \<in> readonly ?w1)" by simp
    have r1: "read_config_file ?w1 filepath = readlines (concat ?N)"
      by (simp add: read_config_file_def)
    have again: "concat (updated_lines name v (readlines (concat ?N))) = concat ?N"
      using n v lines_ok_read by (rule update_fixpoint)
    have "update_variable_in_file cfg filepath name v ?w1 = (True, ?w1)"
      unfolding update_variable_in_file_real [OF real w1] r1 again by simp
    then show ?thesis unfolding 1 by simp
  qed
qed

theorem update_idempotent_witness:
  "is_identifier ''X''
   \<and> files (snd (update_variable_in_file cfg_real ''/h/.bashrc'' ''X'' ''a b''
                    (world_of [(''/h/.bashrc'', ''A=1'')]))) ''/h/.bashrc''
       = Some (''A=1'' @ [newline] @ ''export X='' @ [dquote] @ ''a b'' @ [dquote, newline])
   \<and> update_variable_in_file cfg_real ''/h/.bashrc'' ''X'' ''a b''
        (snd (update_variable_in_file cfg_real ''/h/.bashrc'' ''X'' ''a b''
                (world_of [(''/h/.bashrc'', ''A=1'')])))
       = update_variable_in_file cfg_real ''/h/.bashrc'' ''X'' ''a b''
           (world_of [(''/h/.bashrc'', ''A=1'')])"
proof -
  have n: "is_identifier ''X''" by code_simp
  have v: "newline \<notin> set ''a b''" "carriage_return \<notin> set ''a b''" by simp_all
  have f: "files (snd (update_variable_in_file cfg_real ''/h/.bashrc'' ''X'' ''a b''
                    (world_of [(''/h/.bashrc'', ''A=1'')]))) ''/h/.bashrc''
       = Some (''A=1'' @ [newline] @ ''export X='' @ [dquote] @ ''a b'' @ [dquote, newline])"
    by code_simp
  from update_idempotent [OF n v] n f show ?thesis by blast
qed

text \<open>With a line feed in the value the second call does change the file: the first
  line of the formatted text matches again and its second line stays behind.\<close>

theorem update_idempotent_counterexample:
  "is_identifier ''X''
   \<and> files (snd (update_variable_in_file cfg_real ''/h/.bashrc'' ''X'' (''a'' @ [newline] @ ''b'')
                   (world_of [(''/h/.bashrc'', ''export X=1'' @ [newline])]))) ''/h/.bashrc''
       = Some (''export X=a'' @ [newline] @ ''b'' @ [newline])
   \<and> files (snd (update_variable_in_file cfg_real ''/h/.bashrc'' ''X'' (''a'' @ [newline] @ ''b'')
               (snd (update_variable_in_file cfg_real ''/h/.bashrc'' ''X'' (''a'' @ [newline] @ ''b'')
                   (world_of [(''/h/.bashrc'', ''export X=1'' @ [newline])]))))) ''/h/.bashrc''
       = Some (''export X=a'' @ [newline] @ ''b'' @ [newline] @ ''b'' @ [newline])"
  by code_simp

section \<open>Mutations and the pre-change snapshot\<close>

lemma file_view_eq: "file_view w = file_view w' \<longleftrightarrow> files w = files w' \<and> readonly w = readonly w'"
  by (simp add: file_view_def)

lemma read_config_file_view:
  "file_view w = file_view w' \<Longrightarrow> read_config_file w f = read_config_file w' f"
  by (simp add: file_view_eq read_config_file_def)

lemma get_variables_view:
  assumes "file_view w = file_view w'"
  shows "get_variables_from_file w f = get_variables_from_file w' f"
  by (simp add: get_variables_from_file_def read_config_file_view [OF assms])

lemma file_exists_view:
  "file_view w = file_view w' \<Longrightarrow> file_exists w = file_exists w'"
  by (simp add: file_view_eq file_exists_def fun_eq_iff)

lemma find_existing_view:
  assumes "file_view w = file_view w'"
  shows "find_existing_config_files cfg sh w = find_existing_config_files cfg sh w'"
  by (simp add: find_existing_config_files_def file_exists_view [OF assms])

lemma touch_view:
  "file_view w = file_view w' \<Longrightarrow> file_view (touch p w) = file_view (touch p w')"
  by (auto simp: touch_def file_view_eq file_exists_def)

lemma write_file_view:
  assumes "file_view w = file_view w'"
  shows "(\<exists>e. write_file p c w = Inl e \<and> write_file p c w' = Inl e)
         \<or> (\<exists>u u'. write_file p c w = Inr u \<and> write_file p c w' = Inr u'
                \<and> file_view u = file_view u')"
proof -
  from assms have f: "files w = files w'" and r: "readonly w = readonly w'"
    by (simp_all add: file_view_def)
  have x: "file_exists w p = file_exists w' p" by (simp add: file_exists_def f)
  show ?thesis
  proof (cases "file_exists w p \<and> p \<in> readonly w")
    case True
    then have "write_file p c w = Inl PermissionError" "write_file p c w' = Inl PermissionError"
      using x r by (simp_all add: write_file_def)
    then show ?thesis by blast
  next
    case False
    then have "write_file p c w = Inr (w\<lparr>files := (files w)(p \<mapsto> c), readonly := readonly w - {p}\<rparr>)"
      "write_file p c w' = Inr (w'\<lparr>files := (files w')(p \<mapsto> c), readonly := readonly w' - {p}\<rparr>)"
      using x r by (simp_all add: write_file_def)
    moreover have "file_view (w\<lparr>files := (files w)(p \<mapsto> c), readonly := readonly w - {p}\<rparr>)
        = file_view (w'\<lparr>files := (files w')(p \<mapsto> c), readonly := readonly w' - {p}\<rparr>)"
      by (simp add: file_view_def f r)
    ultimately show ?thesis by blast
  qed
qed

lemma rewrite_view:
  assumes "file_view w = file_view w'"
  shows "fst (case write_config_file cfg f ls w of Inl _ \<Rightarrow> (False, w) | Inr u \<Rightarrow> (True, u))
         = fst (case write_config_file cfg f ls w' of Inl _ \<Rightarrow> (False, w') | Inr u \<Rightarrow> (True, u))
       \<and> file_view (snd (case write_config_file cfg f ls w of Inl _ \<Rightarrow> (False, w) | Inr u \<Rightarrow> (True, u)))
         = file_view (snd (case write_config_file cfg f ls w' of Inl _ \<Rightarrow> (False, w') | Inr u \<Rightarrow> (True, u)))"
proof (cases "dry_run cfg")
  case True
  then show ?thesis using assms by (simp add: write_config_file_def)
next
  case False
  from write_file_view [OF assms, of f "concat ls"] show ?thesis
  proof
    assume "\<exists>e. write_file f (concat ls) w = Inl e \<and> write_file f (concat ls) w' = Inl e"
    then show ?thesis using False assms by (auto simp: write_config_file_def)
  next
    assume "\<exists>u u'. write_file f (concat ls) w = Inr u \<and> write_file f (concat ls) w' = Inr u'
                \<and> file_view u = file_view u'"
    then show ?thesis using False by (auto simp: write_config_file_def)
  qed
qed

lemma update_view:
  assumes "file_view w = file_view w'"
  shows "fst (update_variable_in_file cfg f n v w) = fst (update_variable_in_file cfg f n v w')
       \<and> file_view (snd (update_variable_in_file cfg f n v w))
           = file_view (snd (update_variable_in_file cfg f n v w'))"
proof (cases "dry_run cfg")
  case True
  then show ?thesis using assms by (simp add: update_variable_in_file_def)
next
  case False
  then show ?thesis
    unfolding update_variable_in_file_def read_config_file_view [OF assms]
    using rewrite_view [OF assms] by simp
qed

lemma remove_from_file_view:
  assumes "file_view w = file_view w'"
  shows "fst (remove_variable_from_file cfg f n w) = fst (remove_variable_from_file cfg f n w')
       \<and> file_view (snd (remove_variable_from_file cfg f n w))
           = file_view (snd (remove_variable_from_file cfg f n w'))"
proof (cases "dry_run cfg")
  case True
  then show ?thesis using assms by (simp add: remove_variable_from_file_def)
next
  case False
  then show ?thesis
    unfolding remove_variable_from_file_def read_config_file_view [OF assms]
    using rewrite_view [OF assms] by simp
qed

lemma apply_updates_view_gen:
  assumes "file_view w = file_view w'"
  shows "fst (fold (\<lambda>filepath (success, w).
             let (ok, w') = update_variable_in_file cfg filepath n v w
             in (if ok then success else False, w')) fs (b, w))
       = fst (fold (\<lambda>filepath (success, w).
             let (ok, w') = update_variable_in_file cfg filepath n v w
             in (if ok then success else False, w')) fs (b, w'))
     \<and> file_view (snd (fold (\<lambda>filepath (success, w).
             let (ok, w') = update_variable_in_file cfg filepath n v w
             in (if ok then success else False, w')) fs (b, w)))
       = file_view (snd (fold (\<lambda>filepath (success, w).
             let (ok, w') = update_variable_in_file cfg filepath n v w
             in (if ok then success else False, w')) fs (b, w')))"
  using assms
proof (induction fs arbitrary: b w w')
  case Nil
  then show ?case by simp
next
  case (Cons f fs)
  obtain ok u where u: "update_variable_in_file cfg f n v w = (ok, u)" by (cases "update_variable_in_file cfg f n v w")
  obtain ok' u' where u': "update_variable_in_file cfg f n v w' = (ok', u')" by (cases "update_variable_in_file cfg f n v w'")
  from update_view [OF Cons.prems, of cfg f n v] u u'
  have "ok = ok'" "file_view u = file_view u'" by simp_all
  with Cons.IH [of u u' "if ok then b else False"] show ?case by (simp add: u u')
qed

lemma apply_updates_view:
  assumes "file_view w = file_view w'"
  shows "fst (apply_updates cfg n v fs w) = fst (apply_updates cfg n v fs w')
       \<and> file_view (snd (apply_updates cfg n v fs w)) = file_view (snd (apply_updates cfg n v fs w'))"
  unfolding apply_updates_def using apply_updates_view_gen [OF assms] by blast

lemma apply_removals_view_gen:
  assumes "file_view w = file_view w'"
  shows "fst (fold (\<lambda>filepath (success, w).
             let (ok, w') = remove_variable_from_file cfg filepath n w
             in (if ok then success else False, w')) fs (b, w))
       = fst (fold (\<lambda>filepath (success, w).
             let (ok, w') = remove_variable_from_file cfg filepath n w
             in (if ok then success else False, w')) fs (b, w'))
     \<and> file_view (snd (fold (\<lambda>filepath (success, w).
             let (ok, w') = remove_variable_from_file cfg filepath n w
             in (if ok then success else False, w')) fs (b, w)))
       = file_view (snd (fold (\<lambda>filepath (success, w).
             let (ok, w') = remove_variable_from_file cfg filepath n w
             in (if ok then success else False, w')) fs (b, w')))"
  using assms
proof (induction fs arbitrary: b w w')
  case Nil
  then show ?case by simp
next
  case (Cons f fs)
  obtain ok u where u: "remove_variable_from_file cfg f n w = (ok, u)" by (cases "remove_variable_from_file cfg f n w")
  obtain ok' u' where u': "remove_variable_from_file cfg f n w' = (ok', u')" by (cases "remove_variable_from_file cfg f n w'")
  from remove_from_file_view [OF Cons.prems, of cfg f n] u u'
  have "ok = ok'" "file_view u = file_view u'" by simp_all
  with Cons.IH [of u u' "if ok then b else False"] show ?case by (simp add: u u')
qed

lemma apply_removals_view:
  assumes "file_view w = file_view w'"
  shows "fst (apply_removals cfg n fs w) = fst (apply_removals cfg n fs w')
       \<and> file_view (snd (apply_removals cfg n fs w)) = file_view (snd (apply_removals cfg n fs w'))"
  unfolding apply_removals_def using apply_removals_view_gen [OF assms] by blast

lemma create_backup_view: "file_view (snd (create_backup cfg fs msg w)) = file_view w"
  by (simp add: create_backup_def now_def file_view_def Let_def split: prod.splits)

lemma create_backup_unwritable:
  "\<not> backup_dir_writable w \<Longrightarrow>
   fst (create_backup cfg fs msg w) = None \<and> archives (snd (create_backup cfg fs msg w)) = archives w"
  by (simp add: create_backup_def now_def Let_def split: prod.splits)

lemma get_primary_view:
  assumes "file_view w = file_view w'"
  shows "fst (get_primary_config_file cfg sh w) = fst (get_primary_config_file cfg sh w')
       \<and> file_view (snd (get_primary_config_file cfg sh w))
           = file_view (snd (get_primary_config_file cfg sh w'))"
  using assms touch_view [OF assms]
  by (auto simp: get_primary_config_file_def find_existing_view [OF assms] Let_def split: list.splits)

lemma collect_file_view:
  assumes "file_view w = file_view w'"
  shows "fst (collect_file cfg n sh (fs, w)) = fst (collect_file cfg n sh (fs, w'))
       \<and> file_view (snd (collect_file cfg n sh (fs, w)))
           = file_view (snd (collect_file cfg n sh (fs, w')))"
proof -
  obtain p u where p: "get_primary_config_file cfg sh w = (p, u)" by (cases "get_primary_config_file cfg sh w")
  obtain p' u' where p': "get_primary_config_file cfg sh w' = (p', u')" by (cases "get_primary_config_file cfg sh w'")
  from get_primary_view [OF assms, of cfg sh] p p' have e: "p = p'" "file_view u = file_view u'" by simp_all
  show ?thesis
    unfolding collect_file_def
    by (simp add: find_existing_view [OF assms] p p' e Let_def get_variables_view [OF assms]
        get_variables_view [OF e(2)] assms)
qed

lemma collect_fold_view:
  assumes "file_view w = file_view w'"
  shows "fst (fold (collect_file cfg n) shells (fs, w)) = fst (fold (collect_file cfg n) shells (fs, w'))
       \<and> file_view (snd (fold (collect_file cfg n) shells (fs, w)))
           = file_view (snd (fold (collect_file cfg n) shells (fs, w')))"
  using assms
proof (induction shells arbitrary: fs w w')
  case Nil
  then show ?case by simp
next
  case (Cons sh shells)
  obtain g u where u: "collect_file cfg n sh (fs, w) = (g, u)" by (cases "collect_file cfg n sh (fs, w)")
  obtain g' u' where u': "collect_file cfg n sh (fs, w') = (g', u')" by (cases "collect_file cfg n sh (fs, w')")
  from collect_file_view [OF Cons.prems, of cfg n sh fs] u u'
  have "g = g'" "file_view u = file_view u'" by simp_all
  with Cons.IH [of u u' g] show ?case by (simp add: u u')
qed


lemma set_variable_view:
  assumes "file_view w = file_view w'"
  shows "fst (set_variable cfg n v shells skip sf resp w) = fst (set_variable cfg n v shells skip sf resp w')
       \<and> file_view (snd (set_variable cfg n v shells skip sf resp w))
           = file_view (snd (set_variable cfg n v shells skip sf resp w'))"
proof -
  let ?sel = "\<lambda>w. (case sf of
                 Some f \<Rightarrow>
                   if f \<noteq> [] then (if file_exists w f then Some ([f], w) else None)
                   else Some (fold (collect_file cfg n) shells ([], w))
               | None \<Rightarrow> Some (fold (collect_file cfg n) shells ([], w)))"
  have tail: "fst (if \<not> skip \<and> \<not> dry_run cfg \<and> \<not> agreed resp then (False, u)
             else (let w2 = (if backup_enabled cfg \<and> \<not> dry_run cfg \<and> fs \<noteq> []
                          then snd (create_backup cfg fs (Some (''Before setting '' @ n @ ''='' @ v)) u)
                          else u)
                in apply_updates cfg n v fs w2))
        = fst (if \<not> skip \<and> \<not> dry_run cfg \<and> \<not> agreed resp then (False, u')
             else (let w2 = (if backup_enabled cfg \<and> \<not> dry_run cfg \<and> fs \<noteq> []
                          then snd (create_backup cfg fs (Some (''Before setting '' @ n @ ''='' @ v)) u')
                          else u')
                in apply_updates cfg n v fs w2))
      \<and> file_view (snd (if \<not> skip \<and> \<not> dry_run cfg \<and> \<not> agreed resp then (False, u)
             else (let w2 = (if backup_enabled cfg \<and> \<not> dry_run cfg \<and> fs \<noteq> []
                          then snd (create_backup cfg fs (Some (''Before setting '' @ n @ ''='' @ v)) u)
                          else u)
                in apply_updates cfg n v fs w2)))
        = file_view (snd (if \<not> skip \<and> \<not> dry_run cfg \<and> \<not> agreed resp then (False, u')
             else (let w2 = (if backup_enabled cfg \<and> \<not> dry_run cfg \<and> fs \<noteq> []
                          then snd (create_backup cfg fs (Some (''Before setting '' @ n @ ''='' @ v)) u')
                          else u')
                in apply_updates cfg n v fs w2)))"
    if uu: "file_view u = file_view u'" for u u' fs
  proof -
    let ?m = "Some (''Before setting '' @ n @ ''='' @ v)"
    have b: "file_view (snd (create_backup cfg fs ?m u)) = file_view (snd (create_backup cfg fs ?m u'))"
      by (simp add: create_backup_view uu)
    show ?thesis
      using apply_updates_view [OF uu, of cfg n v fs] apply_updates_view [OF b, of cfg n v fs] uu
      by (simp add: Let_def)
  qed
  have sel: "(?sel w = None \<and> ?sel w' = None)
             \<or> (\<exists>fs u u'. ?sel w = Some (fs, u) \<and> ?sel w' = Some (fs, u') \<and> file_view u = file_view u')"
  proof -
    obtain g u where c: "fold (collect_file cfg n) shells ([], w) = (g, u)"
      by (cases "fold (collect_file cfg n) shells ([], w)")
    obtain g' u' where c': "fold (collect_file cfg n) shells ([], w') = (g', u')"
      by (cases "fold (collect_file cfg n) shells ([], w')")
    from collect_fold_view [OF assms, of cfg n shells "[]"] c c'
    have e: "g = g'" "file_view u = file_view u'" by simp_all
    show ?thesis
      using e assms by (auto simp: c c' file_exists_view [OF assms] split: option.splits)
  qed
  show ?thesis
  proof (cases "name_accepted n")
    case False
    then show ?thesis using assms by (simp add: set_variable_def)
  next
    case True
    from sel show ?thesis
    proof
      assume "?sel w = None \<and> ?sel w' = None"
      then show ?thesis using assms True unfolding set_variable_def by simp
    next
      assume "\<exists>fs u u'. ?sel w = Some (fs, u) \<and> ?sel w' = Some (fs, u') \<and> file_view u = file_view u'"
      then obtain fs u u' where s: "?sel w = Some (fs, u)" "?sel w' = Some (fs, u')"
        and uu: "file_view u = file_view u'" by blast
      show ?thesis
        unfolding set_variable_def using True tail [OF uu, of fs] by (simp only: s if_False not_True_eq_False option.case prod.case simp_thms)
    qed
  qed
qed

lemma files_defining_view:
  assumes "file_view w = file_view w'"
  shows "files_defining cfg n shells w = files_defining cfg n shells w'"
  by (simp add: files_defining_def get_variables_view [OF assms] find_existing_view [OF assms])

lemma remove_variable_view:
  assumes "file_view w = file_view w'"
  shows "fst (remove_variable cfg n shells skip resp w) = fst (remove_variable cfg n shells skip resp w')
       \<and> file_view (snd (remove_variable cfg n shells skip resp w))
           = file_view (snd (remove_variable cfg n shells skip resp w'))"
proof -
  let ?fs = "files_defining cfg n shells w'"
  let ?m = "Some (''Before removing '' @ n)"
  have b: "file_view (snd (create_backup cfg ?fs ?m w)) = file_view (snd (create_backup cfg ?fs ?m w'))"
    by (simp add: create_backup_view assms)
  show ?thesis
    unfolding remove_variable_def files_defining_view [OF assms]
    using apply_removals_view [OF assms, of cfg n ?fs] apply_removals_view [OF b, of cfg n ?fs] assms
    by (simp add: Let_def)
qed

text \<open>What only \<^verbatim>\<open>create_backup\<close> changes.\<close>

lemma write_file_archives:
  "write_file p c w = Inr u \<Longrightarrow> archives u = archives w \<and> backup_dir_writable u = backup_dir_writable w"
  by (auto simp: write_file_def split: if_splits)

lemma update_archives:
  "archives (snd (update_variable_in_file cfg f n v w)) = archives w
   \<and> backup_dir_writable (snd (update_variable_in_file cfg f n v w)) = backup_dir_writable w"
  by (auto simp: update_variable_in_file_def write_config_file_def split: sum.splits
      dest: write_file_archives)

lemma remove_from_file_archives:
  "archives (snd (remove_variable_from_file cfg f n w)) = archives w
   \<and> backup_dir_writable (snd (remove_variable_from_file cfg f n w)) = backup_dir_writable w"
  by (auto simp: remove_variable_from_file_def write_config_file_def split: sum.splits
      dest: write_file_archives)

lemma apply_updates_archives_gen:
  "archives (snd (fold (\<lambda>filepath (success, w).
             let (ok, w') = update_variable_in_file cfg filepath n v w
             in (if ok then success else False, w')) fs (b, w))) = archives w
   \<and> backup_dir_writable (snd (fold (\<lambda>filepath (success, w).
             let (ok, w') = update_variable_in_file cfg filepath n v w
             in (if ok then success else False, w')) fs (b, w))) = backup_dir_writable w"
proof (induction fs arbitrary: b w)
  case Nil
  then show ?case by simp
next
  case (Cons f fs)
  obtain ok u where u: "update_variable_in_file cfg f n v w = (ok, u)"
    by (cases "update_variable_in_file cfg f n v w")
  with update_archives [of cfg f n v w] have "archives u = archives w"
    "backup_dir_writable u = backup_dir_writable w" by simp_all
  with Cons.IH [of "if ok then b else False" u] show ?case by (simp add: u)
qed

lemma apply_updates_archives:
  "archives (snd (apply_updates cfg n v fs w)) = archives w
   \<and> backup_dir_writable (snd (apply_updates cfg n v fs w)) = backup_dir_writable w"
  unfolding apply_updates_def by (rule apply_updates_archives_gen)

lemma apply_removals_archives_gen:
  "archives (snd (fold (\<lambda>filepath (success, w).
             let (ok, w') = remove_variable_from_file cfg filepath n w
             in (if ok then success else False, w')) fs (b, w))) = archives w
   \<and> backup_dir_writable (snd (fold (\<lambda>filepath (success, w).
             let (ok, w') = remove_variable_from_file cfg filepath n w
             in (if ok then success else False, w')) fs (b, w))) = backup_dir_writable w"
proof (induction fs arbitrary: b w)
  case Nil
  then show ?case by simp
next
  case (Cons f fs)
  obtain ok u where u: "remove_variable_from_file cfg f n w = (ok, u)"
    by (cases "remove_variable_from_file cfg f n w")
  with remove_from_file_archives [of cfg f n w] have "archives u = archives w"
    "backup_dir_writable u = backup_dir_writable w" by simp_all
  with Cons.IH [of "if ok then b else False" u] show ?case by (simp add: u)
qed

lemma apply_removals_archives:
  "archives (snd (apply_removals cfg n fs w)) = archives w
   \<and> backup_dir_writable (snd (apply_removals cfg n fs w)) = backup_dir_writable w"
  unfolding apply_removals_def by (rule apply_removals_archives_gen)

lemma get_primary_archives:
  "archives (snd (get_primary_config_file cfg sh w)) = archives w
   \<and> backup_dir_writable (snd (get_primary_config_file cfg sh w)) = backup_dir_writable w"
  by (simp add: get_primary_config_file_def touch_def Let_def split: list.splits)

lemma collect_file_archives:
  "archives (snd (collect_file cfg n sh (fs, w))) = archives w
   \<and> backup_dir_writable (snd (collect_file cfg n sh (fs, w))) = backup_dir_writable w"
proof -
  obtain p u where p: "get_primary_config_file cfg sh w = (p, u)"
    by (cases "get_primary_config_file cfg sh w")
  with get_primary_archives [of cfg sh w] have "archives u = archives w"
    "backup_dir_writable u = backup_dir_writable w" by simp_all
  then show ?thesis by (simp add: collect_file_def p Let_def)
qed

lemma collect_fold_archives:
  "archives (snd (fold (collect_file cfg n) shells (fs, w))) = archives w
   \<and> backup_dir_writable (snd (fold (collect_file cfg n) shells (fs, w))) = backup_dir_writable w"
proof (induction shells arbitrary: fs w)
  case Nil
  then show ?case by simp
next
  case (Cons sh shells)
  obtain g u where u: "collect_file cfg n sh (fs, w) = (g, u)" by (cases "collect_file cfg n sh (fs, w)")
  with collect_file_archives [of cfg n sh fs w] have "archives u = archives w"
    "backup_dir_writable u = backup_dir_writable w" by simp_all
  with Cons.IH [of g u] show ?case by (simp add: u)
qed

lemma create_backup_unwritable_state:
  "\<not> backup_dir_writable w \<Longrightarrow>
   archives (snd (create_backup cfg fs msg w)) = archives w
   \<and> backup_dir_writable (snd (create_backup cfg fs msg w)) = backup_dir_writable w"
  by (simp add: create_backup_def now_def Let_def split: prod.splits)

lemma set_variable_no_snapshot:
  assumes "\<not> backup_dir_writable w"
  shows "archives (snd (set_variable cfg n v shells skip specific_file resp w)) = archives w"
proof -
  obtain g u where c: "fold (collect_file cfg n) shells ([], w) = (g, u)"
    by (cases "fold (collect_file cfg n) shells ([], w)")
  with collect_fold_archives [of cfg n shells "[]" w] assms
  have u: "archives u = archives w" "\<not> backup_dir_writable u" by simp_all
  have tail: "archives (snd (if \<not> skip \<and> \<not> dry_run cfg \<and> \<not> agreed resp then (False, x)
             else (let w2 = (if backup_enabled cfg \<and> \<not> dry_run cfg \<and> fs \<noteq> []
                          then snd (create_backup cfg fs (Some (''Before setting '' @ n @ ''='' @ v)) x)
                          else x)
                in apply_updates cfg n v fs w2))) = archives x"
    if "\<not> backup_dir_writable x" for x fs
    using create_backup_unwritable_state [OF that, of cfg fs] apply_updates_archives
    by (simp add: Let_def)
  let ?sel = "(case specific_file of
                 Some f \<Rightarrow>
                   if f \<noteq> [] then (if file_exists w f then Some ([f], w) else None)
                   else Some (fold (collect_file cfg n) shells ([], w))
               | None \<Rightarrow> Some (fold (collect_file cfg n) shells ([], w)))"
  have sel: "?sel = None \<or> (\<exists>fs x. ?sel = Some (fs, x) \<and> archives x = archives w
                                 \<and> \<not> backup_dir_writable x)"
    using u assms by (auto simp: c split: option.splits)
  show ?thesis
  proof (cases "name_accepted n")
    case False
    then show ?thesis by (simp add: set_variable_def)
  next
    case True
    from sel show ?thesis
    proof
      assume "?sel = None"
      then show ?thesis using True unfolding set_variable_def by simp
    next
      assume "\<exists>fs x. ?sel = Some (fs, x) \<and> archives x = archives w \<and> \<not> backup_dir_writable x"
      then obtain fs x where s: "?sel = Some (fs, x)" and x: "archives x = archives w"
        "\<not> backup_dir_writable x" by blast
      show ?thesis
        unfolding set_variable_def using True tail [OF x(2), of fs] x(1)
        by (simp only: s if_False not_True_eq_False option.case prod.case simp_thms)
    qed
  qed
qed

lemma remove_variable_no_snapshot:
  assumes "\<not> backup_dir_writable w"
  shows "archives (snd (remove_variable cfg n shells skip resp w)) = archives w"
  unfolding remove_variable_def
  using create_backup_unwritable_state [OF assms] apply_removals_archives
  by (simp add: Let_def)

text \<open>
  Claim C9 (mutation does not depend on snapshot success). When the archive cannot be
  created, \<^verbatim>\<open>create_backup\<close> returns \<^verbatim>\<open>None\<close>; \<^verbatim>\<open>set_variable\<close> and
  \<^verbatim>\<open>remove_variable\<close> then leave the backup directory as it was (no snapshot exists),
  and nevertheless return the same result and leave the same text files and permissions
  as in the world where the archive can be created.
\<close>

theorem mutation_without_snapshot:
  assumes "\<not> backup_dir_writable w"
  shows "fst (create_backup cfg files_to_backup message w) = None
       \<and> archives (snd (set_variable cfg name v shells skip specific_file response w)) = archives w
       \<and> fst (set_variable cfg name v shells skip specific_file response w)
           = fst (set_variable cfg name v shells skip specific_file response
                    (w\<lparr>backup_dir_writable := True\<rparr>))
       \<and> file_view (snd (set_variable cfg name v shells skip specific_file response w))
           = file_view (snd (set_variable cfg name v shells skip specific_file response
                               (w\<lparr>backup_dir_writable := True\<rparr>)))
       \<and> archives (snd (remove_variable cfg name shells skip response w)) = archives w
       \<and> fst (remove_variable cfg name shells skip response w)
           = fst (remove_variable cfg name shells skip response (w\<lparr>backup_dir_writable := True\<rparr>))
       \<and> file_view (snd (remove_variable cfg name shells skip response w))
           = file_view (snd (remove_variable cfg name shells skip response
                               (w\<lparr>backup_dir_writable := True\<rparr>)))"
proof -
  have v: "file_view w = file_view (w\<lparr>backup_dir_writable := True\<rparr>)"
    by (simp add: file_view_def)
  show ?thesis
    using create_backup_unwritable [OF assms, of cfg files_to_backup message]
      set_variable_no_snapshot [OF assms, of cfg name v shells skip specific_file response]
      set_variable_view [OF v, of cfg name v shells skip specific_file response]
      remove_variable_no_snapshot [OF assms, of cfg name shells skip response]
      remove_variable_view [OF v, of cfg name shells skip response]
    by simp
qed

theorem mutation_without_snapshot_witness:
  "\<not> backup_dir_writable ((world_of [(''/h/.bashrc'', ''export X=1'' @ [newline])])
                              \<lparr>backup_dir_writable := False\<rparr>)
   \<and> fst (create_backup cfg_real [''/h/.bashrc''] None
            ((world_of [(''/h/.bashrc'', ''export X=1'' @ [newline])])
               \<lparr>backup_dir_writable := False\<rparr>)) = None
   \<and> fst (set_variable cfg_real ''X'' ''3'' [BASH] True None []
            ((world_of [(''/h/.bashrc'', ''export X=1'' @ [newline])])
               \<lparr>backup_dir_writable := False\<rparr>)) = True
   \<and> files (snd (set_variable cfg_real ''X'' ''3'' [BASH] True None []
            ((world_of [(''/h/.bashrc'', ''export X=1'' @ [newline])])
               \<lparr>backup_dir_writable := False\<rparr>))) ''/h/.bashrc''
       = Some (''export X=3'' @ [newline])
   \<and> archives (snd (set_variable cfg_real ''X'' ''3'' [BASH] True None []
            ((world_of [(''/h/.bashrc'', ''export X=1'' @ [newline])])
               \<lparr>backup_dir_writable := False\<rparr>))) = []
   \<and> files (snd (remove_variable cfg_real ''X'' [BASH] True []
            ((world_of [(''/h/.bashrc'', ''export X=1'' @ [newline])])
               \<lparr>backup_dir_writable := False\<rparr>))) ''/h/.bashrc''
       = Some []
   \<and> archives (snd (remove_variable cfg_real ''X'' [BASH] True []
            ((world_of [(''/h/.bashrc'', ''export X=1'' @ [newline])])
               \<lparr>backup_dir_writable := False\<rparr>))) = []"
  (is "?h \<and> ?a \<and> ?b \<and> ?c \<and> ?d \<and> ?e \<and> ?f")
proof -
  have h: ?h by (simp add: world_of_def)
  have a0: "archives ((world_of [(''/h/.bashrc'', ''export X=1'' @ [newline])])
               \<lparr>backup_dir_writable := False\<rparr>) = []" by (simp add: world_of_def)
  have b: ?b by code_simp
  have c: ?c by code_simp
  have e: ?e by code_simp
  from mutation_without_snapshot [OF h, of cfg_real "[''/h/.bashrc'']" None "''X''" "''3''" "[BASH]"
      True None "[]"] a0
  have ?a ?d ?f by simp_all
  with h b c e show ?thesis by blast
qed

section \<open>Synchronisation\<close>

lemma merge_step_key:
  "merge_step V f acc k = (case file_value V f k of None \<Rightarrow> acc k | Some x \<Rightarrow> Some x)"
  by (simp add: file_value_def map_add_def split: option.splits)


lemma merge_fold_absorb:
  assumes "acc k = Some x" and "\<And>g. g \<in> set fs \<Longrightarrow> file_value V g k = None \<or> file_value V g k = Some x"
  shows "fold (merge_step V) fs acc k = Some x"
  using assms
proof (induction fs arbitrary: acc)
  case Nil
  then show ?case by simp
next
  case (Cons g fs)
  have "merge_step V g acc k = Some x"
    using Cons.prems(1) Cons.prems(2) [of g] by (auto simp: merge_step_key)
  then show ?case using Cons.IH [of "merge_step V g acc"] Cons.prems(2) by simp
qed














lemma fold_filter:
  "fold g (filter P fs) a = fold (\<lambda>f acc. if P f then g f acc else acc) fs a"
  by (induction fs arbitrary: a) auto

lemma merge_fold_lookup:
  "map_of (fold (\<lambda>config_file shell_vars.
             dict_update shell_vars (get_variables_from_file u config_file)) fs d)
   = fold (\<lambda>f acc. acc ++ map_of (get_variables_from_file u f)) fs (map_of d)"
  by (induction fs arbitrary: d) (simp_all add: merge_step_lookup)

lemma shell_variables_merge:
  "map_of (shell_variables cfg u sh) = merge_maps (var_view u) (config_files cfg sh)"
proof -
  let ?C = "config_files cfg sh"
  have e: "(\<lambda>f acc. if file_exists u f then acc ++ map_of (get_variables_from_file u f) else acc)
        = merge_step (var_view u)"
    by (auto simp: fun_eq_iff var_view_def)
  have "map_of (shell_variables cfg u sh)
        = fold (\<lambda>f acc. acc ++ map_of (get_variables_from_file u f)) (filter (file_exists u) ?C)
            Map.empty"
    by (simp add: shell_variables_def find_existing_config_files_def merge_fold_lookup)
  also have "\<dots> = fold (\<lambda>f acc. if file_exists u f
                                   then acc ++ map_of (get_variables_from_file u f) else acc)
                      ?C Map.empty"
    by (rule fold_filter)
  also have "\<dots> = merge_maps (var_view u) ?C" unfolding e merge_maps_def ..
  finally show ?thesis .
qed













lemma var_view_exists: "var_view u f \<noteq> None \<longleftrightarrow> file_exists u f"
  by (simp add: var_view_def)

lemma get_variables_missing: "\<not> file_exists u f \<Longrightarrow> get_variables_from_file u f = []"
  by (simp add: get_variables_from_file_def read_config_file_def file_exists_def)















text \<open>The changes of a plan.\<close>

lemma changes_condition:
  "(\<not> dict_contains D n \<or> dict_get D n \<noteq> Some v) \<longleftrightarrow> map_of D n \<noteq> Some v"
  by (auto simp: dict_contains_def dict_get_def)









section \<open>Merge precedence\<close>

lemma merge_last_definer:
  assumes fv: "file_value V F X = Some v"
    and later: "\<And>G. G \<in> set post \<Longrightarrow> file_value V G X = None"
  shows "merge_maps V (pre @ [F] @ post) X = Some v"
proof -
  let ?acc = "merge_step V F (fold (merge_step V) pre Map.empty)"
  have a: "?acc X = Some v" using fv by (simp add: merge_step_key)
  have "fold (merge_step V) post ?acc X = Some v"
    using a by (rule merge_fold_absorb) (simp add: later)
  then show ?thesis by (simp add: merge_maps_def)
qed

text \<open>
  Claim C4 (merge precedence). Among the existing files of a shell that define a name, the
  one that comes last in the candidate order wins: if the candidate list is
  \<open>pre @ [F] @ post\<close>, \<open>F\<close> exists and assigns \<open>X\<close> the value \<open>v\<close>, and no
  existing file of \<open>post\<close> defines \<open>X\<close>, then the map that \<^verbatim>\<open>get_all_variables\<close>
  returns for that shell gives \<open>X\<close> the value \<open>v\<close>, whatever the files of \<open>pre\<close>
  hold. With the order \<open>[F1, F2, F3]\<close> and both \<open>F1\<close> and \<open>F3\<close> defining \<open>X\<close>
  this is the value of \<open>F3\<close> (\<open>post\<close> empty); the examples show a last definer that is
  not the last candidate, and the case of the claim.
\<close>

theorem merge_precedence:
  assumes order: "config_files cfg sh = pre @ [F] @ post"
    and ex: "file_exists w F"
    and defd: "dict_get (get_variables_from_file w F) X = Some v"
    and later: "\<forall>G\<in>set post. file_exists w G \<longrightarrow>
                  \<not> dict_contains (get_variables_from_file w G) X"
  shows "\<exists>shell_vars.
           dict_get (get_all_variables cfg [sh] w) (shell_value sh) = Some shell_vars
           \<and> dict_get shell_vars X = Some v"
proof -
  have fv: "file_value (var_view w) F X = Some v"
    using ex defd by (simp add: file_value_def var_view_def dict_get_def)
  have none: "file_value (var_view w) G X = None" if "G \<in> set post" for G
    using later that by (auto simp: file_value_def var_view_def dict_contains_def)
  have "map_of (shell_variables cfg w sh) X = Some v"
    unfolding shell_variables_merge order using fv none by (rule merge_last_definer)
  then have "dict_get (shell_variables cfg w sh) X = Some v" by (simp add: dict_get_def)
  with get_all_variables_single [of cfg sh w] show ?thesis by blast
qed

theorem merge_precedence_witness:
  "dict_get (get_variables_from_file
               (world_of [(''/h/.bashrc'', ''export X=1'' @ [newline]),
                          (''/h/.bash_profile'', ''export X=2'' @ [newline]),
                          (''/h/.profile'', ''B=3'' @ [newline])]) ''/h/.bash_profile'') ''X''
     = Some ''2''
   \<and> \<not> dict_contains (get_variables_from_file
               (world_of [(''/h/.bashrc'', ''export X=1'' @ [newline]),
                          (''/h/.bash_profile'', ''export X=2'' @ [newline]),
                          (''/h/.profile'', ''B=3'' @ [newline])]) ''/h/.profile'') ''X''
   \<and> (\<exists>shell_vars.
         dict_get (get_all_variables cfg_real [BASH]
                     (world_of [(''/h/.bashrc'', ''export X=1'' @ [newline]),
                                (''/h/.bash_profile'', ''export X=2'' @ [newline]),
                                (''/h/.profile'', ''B=3'' @ [newline])])) (shell_value BASH)
           = Some shell_vars
         \<and> dict_get shell_vars ''X'' = Some ''2'')
   \<and> dict_get (get_variables_from_file
               (world_of [(''/h/.bashrc'', ''export X=1'' @ [newline]),
                          (''/h/.profile'', ''X=2'' @ [newline])]) ''/h/.bashrc'') ''X''
     = Some ''1''
   \<and> (\<exists>shell_vars.
         dict_get (get_all_variables cfg_real [BASH]
                     (world_of [(''/h/.bashrc'', ''export X=1'' @ [newline]),
                                (''/h/.profile'', ''X=2'' @ [newline])])) (shell_value BASH)
           = Some shell_vars
         \<and> dict_get shell_vars ''X'' = Some ''2'')"
  (is "?d \<and> ?n \<and> ?c1 \<and> ?d1 \<and> ?c2")
proof -
  let ?W = "world_of [(''/h/.bashrc'', ''export X=1'' @ [newline]),
                      (''/h/.bash_profile'', ''export X=2'' @ [newline]),
                      (''/h/.profile'', ''B=3'' @ [newline])]"
  let ?W2 = "world_of [(''/h/.bashrc'', ''export X=1'' @ [newline]),
                       (''/h/.profile'', ''X=2'' @ [newline])]"
  have o1: "config_files cfg_real BASH = [''/h/.bashrc''] @ [''/h/.bash_profile''] @ [''/h/.profile'']"
    by (simp add: cfg_real_def path_join_def)
  have e1: "file_exists ?W ''/h/.bash_profile''" by (simp add: file_exists_def world_of_def)
  have d: ?d by code_simp
  have n: ?n by code_simp
  have l1: "\<forall>G\<in>set [''/h/.profile'']. file_exists ?W G \<longrightarrow>
                  \<not> dict_contains (get_variables_from_file ?W G) ''X''"
    using n by simp
  have c1: ?c1 by (rule merge_precedence [OF o1 e1 d l1])
  have o2: "config_files cfg_real BASH = [''/h/.bashrc'', ''/h/.bash_profile''] @ [''/h/.profile''] @ []"
    by (simp add: cfg_real_def path_join_def)
  have e2: "file_exists ?W2 ''/h/.profile''" by (simp add: file_exists_def world_of_def)
  have d1: ?d1 by code_simp
  have d2: "dict_get (get_variables_from_file ?W2 ''/h/.profile'') ''X'' = Some ''2''" by code_simp
  have l2: "\<forall>G\<in>set []. file_exists ?W2 G \<longrightarrow>
                  \<not> dict_contains (get_variables_from_file ?W2 G) ''X''" by simp
  have c2: ?c2 by (rule merge_precedence [OF o2 e2 d2 l2])
  from d n c1 d1 c2 show ?thesis by blast
qed

section \<open>Sync convergence\<close>






end
